theory Spec2Isabelle
  imports Complex_Main "HOL-Library.Word"
begin

unbundle bit_operations_syntax

section \<open>Shared data model\<close>

text \<open>
  The firmware runs on a 32-bit LPC17xx: \<open>unsigned int\<close> and \<open>uint32_t\<close> are
  \<open>32 word\<close>, the Q32.32 step accumulators are \<open>64 word\<close>.

  The \<open>float\<close> quantities of \<open>Stepper.cpp\<close> (rates, \<open>millimeters\<close>,
  \<open>rate_ratio\<close>) are 32-bit floats.  A finite float is modelled as the real number it
  denotes, and every arithmetic operation of the code (\<open>+\<close>, \<open>-\<close>, \<open>*\<close>, \<open>/\<close>, the
  conversion of an integer) as the exact operation followed by the rounding of its result
  to the float format.  Comparisons of finite floats are exact.  The constants \<open>1.5F\<close>
  and \<open>0.5F\<close> are floats and denote \<open>3/2\<close> and \<open>1/2\<close>.  Infinities and NaN are not
  values of the model.

  The rounding is a parameter \<open>fl\<close> of the functions that compute with floats, so
  what is proved of them holds whatever the rounding is.  \<open>round_binary32\<close> below is
  the rounding of the target, used wherever the code is evaluated on an input.

  \<open>StepperMotor\<close> objects are shared by pointer between the robot's actuator list and
  the step ticker's motor list, so motors live in a store indexed by pointer.

  The headers (\<open>Block.h\<close>, \<open>StepperMotor.h\<close>, \<open>StepTicker.h\<close>) are not among the
  sources.  The fields below are the ones the two source files read and write; step
  counts and step positions are 32-bit, as the sources compare them with \<open>uint32_t\<close>
  values.
\<close>

type_synonym u32 = "32 word"
type_synonym u64 = "64 word"
type_synonym ptr = nat

text \<open>
  Undefined behaviour of the C++ source that ends the run is a value of the model: a
  member access or a call through a null pointer or through a pointer read beyond the end
  of a vector, and a division by zero.  \<open>LoopNotLeft\<close> is returned for a loop whose
  exit depends on the hardware or on code outside the given sources, when it has not been
  left within the supplied bound.
\<close>

datatype fault = OutOfBounds | NullDeref | DivByZero | LoopNotLeft

type_synonym rounding = "real \<Rightarrow> real"

text \<open>
  IEEE 754 binary32, round to nearest, ties to even: 24 significant bits, and below
  \<open>2 ^ - 126\<close> the fixed spacing \<open>2 ^ - 149\<close> of the subnormal numbers.  Results of
  magnitude \<open>2 ^ 128\<close> and more, which overflow to infinity in the format, are outside
  what the definition describes.

  \<open>binade n a 0\<close> is the exponent \<open>e\<close> with \<open>2 ^ e \<le> a < 2 ^ (e + 1)\<close> of a positive
  \<open>a\<close>, found by halving or doubling \<open>a\<close> at most \<open>n\<close> times.
\<close>

definition pow2 :: "int \<Rightarrow> real" where
  "pow2 e = (if 0 \<le> e then 2 ^ nat e else 1 / 2 ^ nat (- e))"

fun binade :: "nat \<Rightarrow> real \<Rightarrow> int \<Rightarrow> int" where
  "binade 0 a e = e"
| "binade (Suc n) a e =
     (if 2 \<le> a then binade n (a / 2) (e + 1)
      else if a < 1 then binade n (a * 2) (e - 1)
      else e)"

definition round_half_even :: "real \<Rightarrow> int" where
  "round_half_even q =
     (let f = \<lfloor>q\<rfloor>; r = q - of_int f
      in if r < 1/2 then f else if 1/2 < r then f + 1 else if even f then f else f + 1)"

definition round_binary32 :: rounding where
  "round_binary32 x =
     (if x = 0 then 0
      else let e = max (- 126) (binade 300 \<bar>x\<bar> 0);
               ulp = pow2 (e - 23)
           in sgn x * (of_int (round_half_even (\<bar>x\<bar> / ulp)) * ulp))"

record StepperMotor =
  steps_to_move :: u32
  stepped :: u32
  direction :: bool
  moving :: bool
  is_move_finished :: bool
  fx_counter :: u64
  fx_ticks_per_step :: u64
  rate_ratio :: real
  step_pin :: bool

record Block =
  steps :: "nat \<Rightarrow> u32"
  direction_bits :: u32
  steps_event_count :: u32
  initial_rate :: real
  nominal_rate :: real
  final_rate :: real
  rate_delta :: real
  accelerate_until :: u32
  decelerate_after :: u32
  millimeters :: real

section \<open>Stepper.cpp\<close>

text \<open>
  Calls that leave \<open>Stepper.cpp\<close> (block reference counting, driver pins, motor
  commands, the event bus, timer 2) are recorded in order in a log.  Besides the members
  of \<open>Stepper\<close> the state holds what the code reaches through \<open>THEKERNEL\<close>:
  \<open>robot->actuators\<close>, \<open>conveyor->flush\<close>, and of the step ticker its
  \<open>active_motor_bm\<close> (read by the guard of the trapezoid tick) and its frequency.
\<close>

datatype event =
    Take
  | Release
  | Enable ptr bool
  | Move ptr bool u32
  | SetSpeed ptr real
  | SpeedChange
  | PendTimer2
  | SyncTimer2
  | AttachSignalStep ptr u32

record stepper_state =
  current_block :: "Block option"
  main_stepper :: "ptr option"
  paused :: bool
  force_speed_update :: bool
  enable_pins_status :: bool
  trapezoid_adjusted_rate :: real
  minimum_steps_per_second :: real
  actuators :: "ptr list"
  motors :: "ptr \<Rightarrow> StepperMotor"
  flush :: bool
  step_ticker_active_motor_bm :: u32
  frequency :: real
  log :: "event list"

definition emit :: "event \<Rightarrow> stepper_state \<Rightarrow> stepper_state" where
  "emit e s = s\<lparr>log := log s @ [e]\<rparr>"

text \<open>\<open>Stepper::turn_enable_pins_on\<close>: \<open>a->enable(true)\<close> on every actuator.\<close>

definition turn_enable_pins_on :: "stepper_state \<Rightarrow> stepper_state" where
  "turn_enable_pins_on s =
     (fold (\<lambda>a. emit (Enable a True)) (actuators s) s)\<lparr>enable_pins_status := True\<rparr>"

text \<open>
  \<open>Stepper::stepper_motor_finished_move\<close>: returns at the first actuator that is still
  moving; otherwise releases the current block if there is one.
\<close>

definition stepper_motor_finished_move :: "stepper_state \<Rightarrow> stepper_state" where
  "stepper_motor_finished_move s =
     (if list_ex (\<lambda>a. moving (motors s a)) (actuators s) then s
      else (case current_block s of None \<Rightarrow> s | Some b \<Rightarrow> emit Release s))"

text \<open>
  Modelled from the spec: \<open>StepperMotor::move\<close> is not part of the given sources.
  "move(direction, steps): set direction, set steps_to_move = steps, zero stepped and
  fx_counter, set moving = (steps > 0). If steps == 0, immediately mark the motor as not
  moving and fire the end-of-move signal."  The end-of-move signal is the hook that
  \<open>Stepper::on_module_loaded\<close> attaches on every actuator:
  \<open>Stepper::stepper_motor_finished_move\<close>.  The specification's \<open>move\<close> says nothing
  of the step ticker's active set, so the mask that the trapezoid guard reads is left as
  it is.
\<close>

definition move :: "ptr \<Rightarrow> bool \<Rightarrow> u32 \<Rightarrow> stepper_state \<Rightarrow> stepper_state" where
  "move p dir n s =
     (let m = (motors s p)\<lparr>steps_to_move := n, stepped := 0, direction := dir,
                moving := (0 < n), fx_counter := 0\<rparr>;
          s1 = emit (Move p dir n) (s\<lparr>motors := (motors s)(p := m)\<rparr>)
      in if n = 0 then stepper_motor_finished_move s1 else s1)"

text \<open>
  Modelled from the spec: \<open>StepperMotor::set_speed\<close> is not part of the given sources.
  "compute fx_ticks_per_step = round((step_ticker_rate / steps_per_second) * 2^32);
  floor-limited so a pulse cannot be requested more than once per step-tick."
\<close>

definition speed_to_fx :: "real \<Rightarrow> real \<Rightarrow> u64" where
  "speed_to_fx rate sps = word_of_int (max (2 ^ 32) (round (rate / sps * 2 ^ 32)))"

definition set_speed :: "ptr \<Rightarrow> real \<Rightarrow> stepper_state \<Rightarrow> stepper_state" where
  "set_speed p sps s =
     emit (SetSpeed p sps)
       (s\<lparr>motors := (motors s)
            (p := (motors s p)\<lparr>fx_ticks_per_step := speed_to_fx (frequency s) sps\<rparr>)\<rparr>)"

text \<open>
  \<open>Stepper::set_step_events_per_second\<close>.  The argument of \<open>set_speed\<close> is a float
  product.
\<close>

definition set_step_events_per_second ::
  "rounding \<Rightarrow> real \<Rightarrow> stepper_state \<Rightarrow> stepper_state"
where
  "set_step_events_per_second fl steps_per_second s =
     (let sps = (if steps_per_second < minimum_steps_per_second s
                 then minimum_steps_per_second s else steps_per_second)
      in emit SpeedChange
           (fold (\<lambda>a t. if moving (motors t a)
                         then set_speed a (fl (sps * rate_ratio (motors t a))) t else t)
                 (actuators s) s))"

text \<open>
  \<open>Stepper::trapezoid_generator_tick\<close>.  \<open>main_stepper->stepped\<close> is read as soon as
  the guard holds, so a null \<open>main_stepper\<close> is a fault there.  The products
  \<open>rate_delta * 1.5F\<close> and \<open>rate_delta * 0.5F\<close>, the sum of \<open>+=\<close> and the difference of
  \<open>-=\<close> are float operations: each is rounded.
\<close>

definition trapezoid_generator_tick :: "rounding \<Rightarrow> stepper_state \<Rightarrow> fault + stepper_state" where
  "trapezoid_generator_tick fl s =
     (case current_block s of
        None \<Rightarrow> Inr s
      | Some b \<Rightarrow>
          if \<not> paused s \<and> step_ticker_active_motor_bm s \<noteq> 0 then
            (case main_stepper s of
               None \<Rightarrow> Inl NullDeref
             | Some mp \<Rightarrow>
                 let current_steps_completed = stepped (motors s mp);
                     rate = trapezoid_adjusted_rate s
                 in
                 if force_speed_update s then
                   Inr (set_step_events_per_second fl rate (s\<lparr>force_speed_update := False\<rparr>))
                 else if flush s then
                   (if rate > fl (rate_delta b * (3/2)) then
                      Inr (set_step_events_per_second fl (fl (rate - rate_delta b))
                             (s\<lparr>trapezoid_adjusted_rate := fl (rate - rate_delta b)\<rparr>))
                    else if rate = fl (rate_delta b * (1/2)) then
                      (let t = fold (\<lambda>i t. move i (direction (motors t i)) 0 t) (actuators s) s
                       in Inr (case current_block t of None \<Rightarrow> t | Some c \<Rightarrow> emit Release t))
                    else
                      Inr (set_step_events_per_second fl (fl (rate_delta b * (1/2)))
                             (s\<lparr>trapezoid_adjusted_rate := fl (rate_delta b * (1/2))\<rparr>)))
                 else if current_steps_completed \<le> accelerate_until b + 1 then
                   (let r1 = fl (rate + rate_delta b);
                        r2 = (if r1 > nominal_rate b then nominal_rate b else r1)
                    in Inr (set_step_events_per_second fl r2 (s\<lparr>trapezoid_adjusted_rate := r2\<rparr>)))
                 else if current_steps_completed > decelerate_after b then
                   (let r1 = (if rate > fl (rate_delta b * (3/2)) then fl (rate - rate_delta b)
                              else fl (rate_delta b * (1/2)));
                        r2 = (if r1 < final_rate b then final_rate b else r1)
                    in Inr (set_step_events_per_second fl r2 (s\<lparr>trapezoid_adjusted_rate := r2\<rparr>)))
                 else if rate \<noteq> nominal_rate b then
                   Inr (set_step_events_per_second fl (nominal_rate b)
                          (s\<lparr>trapezoid_adjusted_rate := nominal_rate b\<rparr>))
                 else
                   Inr (set_step_events_per_second fl rate s))
          else Inr s)"

text \<open>\<open>Stepper::trapezoid_generator_reset\<close>; the caller has set \<open>current_block\<close>.\<close>

definition trapezoid_generator_reset :: "Block \<Rightarrow> stepper_state \<Rightarrow> stepper_state" where
  "trapezoid_generator_reset b s =
     s\<lparr>trapezoid_adjusted_rate := initial_rate b, force_speed_update := True\<rparr>"

text \<open>
  \<open>Stepper::synchronize_acceleration\<close>.  Pending timer 2 and copying the counter of
  timer 0 into it are logged; \<open>attach_signal_step\<close> is logged with its step number.
\<close>

definition synchronize_acceleration :: "stepper_state \<Rightarrow> fault + stepper_state" where
  "synchronize_acceleration s =
     (case main_stepper s of
        None \<Rightarrow> Inl NullDeref
      | Some mp \<Rightarrow>
          if stepped (motors s mp) = 0 then
            (let s1 = emit SyncTimer2 (emit PendTimer2 s)
             in case current_block s1 of
                  None \<Rightarrow> Inl NullDeref
                | Some b \<Rightarrow>
                    if decelerate_after b > 0
                       \<and> decelerate_after b < steps_to_move (motors s1 mp)
                    then Inr (emit (AttachSignalStep mp (decelerate_after b)) s1)
                    else Inr s1)
          else Inr (emit SyncTimer2 (emit PendTimer2 s)))"

text \<open>
  The search for \<open>main_stepper\<close> in \<open>Stepper::on_block_begin\<close>: start from
  \<open>NULL\<close>, replace the candidate by every actuator whose \<open>steps_to_move\<close> is
  strictly larger.
\<close>

definition find_main_stepper :: "stepper_state \<Rightarrow> ptr option" where
  "find_main_stepper s =
     fold (\<lambda>a ms. case ms of
                      None \<Rightarrow> Some a
                    | Some m \<Rightarrow> if steps_to_move (motors s a) > steps_to_move (motors s m)
                                then Some a else ms)
          (actuators s) None"

text \<open>
  The set-up loop over the three axes in \<open>Stepper::on_block_begin\<close>.  Reading
  \<open>actuators[i]\<close> beyond the end of the vector is a fault.  The ratio is the float
  quotient of the two step counts converted to float; a zero \<open>steps_event_count\<close>, for
  which the float division gives no finite value, is outside what the model describes.
\<close>

fun setup_axes ::
  "rounding \<Rightarrow> Block \<Rightarrow> nat list \<Rightarrow> stepper_state \<Rightarrow> fault + stepper_state"
where
  "setup_axes fl b [] s = Inr s"
| "setup_axes fl b (i # is) s =
     (if steps b i \<noteq> 0 then
        (if i < length (actuators s) then
           (let a = actuators s ! i;
                s1 = move a (bit (direction_bits b) i) (steps b i) s;
                s2 = s1\<lparr>motors := (motors s1)
                        (a := (motors s1 a)\<lparr>rate_ratio :=
                           fl (fl (real (unat (steps b i)))
                               / fl (real (unat (steps_event_count b))))\<rparr>)\<rparr>
            in setup_axes fl b is s2)
         else Inl OutOfBounds)
      else setup_axes fl b is s)"

text \<open>\<open>Stepper::on_block_begin\<close>.  \<open>ALPHA_STEPPER\<close>, \<open>BETA_STEPPER\<close> and
  \<open>GAMMA_STEPPER\<close> are the indices 0, 1, 2.\<close>

definition on_block_begin ::
  "rounding \<Rightarrow> Block \<Rightarrow> stepper_state \<Rightarrow> fault + stepper_state"
where
  "on_block_begin fl b s =
     (if millimeters b = 0 then Inr s
      else if steps b 0 > 0 \<or> steps b 1 > 0 \<or> steps b 2 > 0 then
        (let s1 = emit Take s;
             s2 = (if enable_pins_status s1 = False then turn_enable_pins_on s1 else s1);
             s3 = s2\<lparr>current_block := Some b\<rparr>;
             s4 = trapezoid_generator_reset b s3;
             s5 = s4\<lparr>main_stepper := find_main_stepper s4\<rparr>
         in case setup_axes fl b [0, 1, 2] s5 of
              Inl e \<Rightarrow> Inl e
            | Inr s6 \<Rightarrow>
                (case trapezoid_generator_tick fl s6 of
                   Inl e \<Rightarrow> Inl e
                 | Inr s7 \<Rightarrow> synchronize_acceleration s7))
      else Inr s)"

section \<open>StepTicker.cpp\<close>

text \<open>
  The registers of timer 0 are fields of the state.  Register writes, the calls into
  \<open>StepperMotor\<close> and the step-pin assertions are recorded in order in a trace.  The timer
  counter \<open>TC\<close> runs on its own, so every read of it is an input of the model.
\<close>

datatype hw_event =
    WriteIR u32
  | WriteMCR u32
  | WriteTCR u32
  | WriteMR0 u32
  | Unstep ptr
  | Tick ptr
  | StepPin ptr
  | SignalMoveFinished ptr

record ticker_state =
  stepper_motors :: "ptr list"
  active_motor_bm :: u32
  period :: u32
  last_duration :: u32
  reset_step_pins :: bool
  moves_finished :: bool
  isr_context :: bool
  MR0 :: u32
  MR1 :: u32
  MCR :: u32
  TCR :: u32
  IR :: u32
  motor_store :: "ptr \<Rightarrow> StepperMotor"
  trace :: "hw_event list"
  past_the_end :: "nat \<Rightarrow> ptr"

definition MCR_MR0I :: u32 where "MCR_MR0I = push_bit 0 1"
definition MCR_MR0R :: u32 where "MCR_MR0R = push_bit 1 1"
definition MCR_MR0S :: u32 where "MCR_MR0S = push_bit 2 1"
definition MCR_MR1I :: u32 where "MCR_MR1I = push_bit 3 1"
definition MCR_MR1R :: u32 where "MCR_MR1R = push_bit 4 1"
definition MCR_MR1S :: u32 where "MCR_MR1S = push_bit 5 1"
definition TCR_ENABLE :: u32 where "TCR_ENABLE = push_bit 0 1"
definition TCR_RESET :: u32 where "TCR_RESET = push_bit 1 1"

definition record_hw :: "hw_event \<Rightarrow> ticker_state \<Rightarrow> ticker_state" where
  "record_hw e s = s\<lparr>trace := trace s @ [e]\<rparr>"

text \<open>The interrupt register is write-one-to-clear; the others store what is written.\<close>

definition write_IR :: "u32 \<Rightarrow> ticker_state \<Rightarrow> ticker_state" where
  "write_IR v s = record_hw (WriteIR v) (s\<lparr>IR := IR s AND NOT v\<rparr>)"

definition write_MCR :: "u32 \<Rightarrow> ticker_state \<Rightarrow> ticker_state" where
  "write_MCR v s = record_hw (WriteMCR v) (s\<lparr>MCR := v\<rparr>)"

definition write_TCR :: "u32 \<Rightarrow> ticker_state \<Rightarrow> ticker_state" where
  "write_TCR v s = record_hw (WriteTCR v) (s\<lparr>TCR := v\<rparr>)"

definition write_MR0 :: "u32 \<Rightarrow> ticker_state \<Rightarrow> ticker_state" where
  "write_MR0 v s = record_hw (WriteMR0 v) (s\<lparr>MR0 := v\<rparr>)"

text \<open>
  \<open>StepTicker::add_stepper_motor\<close>.  What lies past the end of the vector after
  \<open>push_back\<close> is not determined by the sources; nothing below depends on it.
\<close>

definition add_stepper_motor :: "ptr \<Rightarrow> ticker_state \<Rightarrow> ticker_state" where
  "add_stepper_motor stepper_motor s = s\<lparr>stepper_motors := stepper_motors s @ [stepper_motor]\<rparr>"

text \<open>
  \<open>stepper_motors\<close> is a \<open>std::vector\<close> and \<open>stepper_motors[i]\<close> does not check
  its index.  The two scans of the active list evaluate \<open>stepper_motors[i] == motor\<close> for
  the slots 0 to 11, whatever the size of the vector.  Such a read only compares: at or
  beyond the size it yields the word of memory that lies there, which \<open>past_the_end\<close>
  stands for.  The loops that call through the pointer they read are another matter, see
  \<open>for_slots\<close>.
\<close>

definition read_slot :: "ticker_state \<Rightarrow> nat \<Rightarrow> ptr" where
  "read_slot s i =
     (if i < length (stepper_motors s) then stepper_motors s ! i else past_the_end s i)"

text \<open>
  \<open>StepTicker::add_motor_to_active_list\<close>.  The loop visits the slots 0 to 11 with
  \<open>bm = 1 << i\<close> and returns at the first slot that compares equal to the motor.
\<close>

fun add_scan :: "ptr \<Rightarrow> bool \<Rightarrow> nat list \<Rightarrow> ticker_state \<Rightarrow> fault + ticker_state" where
  "add_scan motor reinit [] s = Inr s"
| "add_scan motor reinit (i # is) s =
     (if read_slot s i = motor then
        (let s1 = s\<lparr>active_motor_bm := active_motor_bm s OR push_bit i 1\<rparr>
         in if reinit then
              Inr (write_TCR TCR_ENABLE
                     (write_TCR (TCR_ENABLE OR TCR_RESET)
                        (write_MCR (MCR s1 AND NOT (MCR_MR1R OR MCR_MR1S)) s1)))
            else Inr s1)
      else add_scan motor reinit is s)"

definition add_motor_to_active_list :: "ptr \<Rightarrow> ticker_state \<Rightarrow> fault + ticker_state" where
  "add_motor_to_active_list motor s = add_scan motor (active_motor_bm s = 0) [0..<12] s"

text \<open>\<open>StepTicker::remove_motor_from_active_list\<close>.\<close>

fun remove_scan :: "ptr \<Rightarrow> nat list \<Rightarrow> ticker_state \<Rightarrow> fault + ticker_state" where
  "remove_scan motor [] s = Inr s"
| "remove_scan motor (i # is) s =
     (if read_slot s i = motor then
        (let s1 = s\<lparr>active_motor_bm := active_motor_bm s AND NOT (push_bit i 1)\<rparr>
         in if active_motor_bm s1 = 0
            then Inr (write_MCR (MCR s1 OR (MCR_MR1R OR MCR_MR1S)) s1)
            else Inr s1)
      else remove_scan motor is s)"

definition remove_motor_from_active_list :: "ptr \<Rightarrow> ticker_state \<Rightarrow> fault + ticker_state" where
  "remove_motor_from_active_list motor s = remove_scan motor [0..<12] s"

text \<open>
  The loop shape shared by \<open>tick\<close>, \<open>reset_tick\<close> and the interrupt handler:
  \<open>for (i = 0, bm = 1; i < 12; i++, bm <<= 1) if (active_motor_bm & bm)
  stepper_motors[i]->f()\<close>.  Here the pointer that is read is called through, so a slot
  at or beyond the size of the vector is a fault.
\<close>

fun for_slots ::
  "(ptr \<Rightarrow> ticker_state \<Rightarrow> ticker_state) \<Rightarrow> nat list \<Rightarrow> ticker_state \<Rightarrow> fault + ticker_state"
where
  "for_slots f [] s = Inr s"
| "for_slots f (i # is) s =
     (if active_motor_bm s AND push_bit i 1 \<noteq> 0 then
        (if i < length (stepper_motors s)
         then for_slots f is (f (stepper_motors s ! i) s)
         else Inl OutOfBounds)
      else for_slots f is s)"

text \<open>
  Modelled from the spec: \<open>StepperMotor::tick\<close> is not part of the given sources.
  "1. Add 1 << 32 to fx_counter.  2. If fx_counter \<ge> fx_ticks_per_step, assert the
  physical step pin, set the ticker's reset_step_pins flag, increment stepped, subtract
  fx_ticks_per_step from fx_counter.  3. If stepped == steps_to_move, set
  is_move_finished = true, set the ticker's moves_finished flag."
\<close>

definition motor_tick :: "ptr \<Rightarrow> ticker_state \<Rightarrow> ticker_state" where
  "motor_tick p s =
     (let s0 = record_hw (Tick p) s;
          m1 = (motor_store s0 p)\<lparr>fx_counter := fx_counter (motor_store s0 p) + push_bit 32 1\<rparr>;
          s1 = s0\<lparr>motor_store := (motor_store s0)(p := m1)\<rparr>;
          s2 = (if fx_counter m1 \<ge> fx_ticks_per_step m1 then
                  (record_hw (StepPin p) s1)
                    \<lparr>motor_store := (motor_store s1)
                       (p := m1\<lparr>step_pin := True, stepped := stepped m1 + 1,
                                 fx_counter := fx_counter m1 - fx_ticks_per_step m1\<rparr>),
                     reset_step_pins := True\<rparr>
                else s1);
          m2 = motor_store s2 p
      in if stepped m2 = steps_to_move m2
         then s2\<lparr>motor_store := (motor_store s2)(p := m2\<lparr>is_move_finished := True\<rparr>),
                 moves_finished := True\<rparr>
         else s2)"

text \<open>
  Modelled from the spec: \<open>StepperMotor::unstep\<close> is not part of the given sources.
  "unstep(): deassert the physical step pin (called at MR1)."
\<close>

definition motor_unstep :: "ptr \<Rightarrow> ticker_state \<Rightarrow> ticker_state" where
  "motor_unstep p s =
     (record_hw (Unstep p) s)
       \<lparr>motor_store := (motor_store s)(p := (motor_store s p)\<lparr>step_pin := False\<rparr>)\<rparr>"


definition reset_tick :: "ticker_state \<Rightarrow> fault + ticker_state" where
  "reset_tick s = (case for_slots motor_unstep [0..<12] (s\<lparr>isr_context := True\<rparr>) of
                     Inl e \<Rightarrow> Inl e
                   | Inr t \<Rightarrow> Inr (t\<lparr>isr_context := False\<rparr>))"

text \<open>
  \<open>StepTicker::signal_moves_finished\<close>.  \<open>StepperMotor::signal_move_finished\<close> is not part
  of the given sources, and the specification says of it only that it calls the motor's
  completion callback, which may change the active set; it is the parameter \<open>callback\<close>.
  The loop steps back one slot when the motor is no longer moving after its callback, so
  its length depends on the callback: \<open>fuel\<close> bounds the number of iterations, and
  \<open>LoopNotLeft\<close> is returned when it runs out.  After the decrement and the increment of
  the \<open>for\<close> header, \<open>motor\<close> is what it was and \<open>bitmask\<close> has lost its lowest bit.
\<close>

fun signal_loop ::
  "(ptr \<Rightarrow> ticker_state \<Rightarrow> ticker_state) \<Rightarrow> nat \<Rightarrow> nat \<Rightarrow> 16 word \<Rightarrow> ticker_state
     \<Rightarrow> fault + ticker_state"
where
  "signal_loop callback fuel motor bitmask s =
     (if motor < 12 then
        (case fuel of
           0 \<Rightarrow> Inl LoopNotLeft
         | Suc n \<Rightarrow>
             if active_motor_bm s AND ucast bitmask \<noteq> 0 then
               (if motor < length (stepper_motors s) then
                  (if is_move_finished (motor_store s (stepper_motors s ! motor)) then
                     (let s1 = callback (stepper_motors s ! motor)
                                 (record_hw (SignalMoveFinished (stepper_motors s ! motor)) s)
                      in if motor < length (stepper_motors s1) then
                           (if moving (motor_store s1 (stepper_motors s1 ! motor)) = False
                               \<and> motor > 0
                            then signal_loop callback n motor
                                   (push_bit 1 (drop_bit 1 bitmask)) s1
                            else signal_loop callback n (motor + 1) (push_bit 1 bitmask) s1)
                         else Inl OutOfBounds)
                   else signal_loop callback n (motor + 1) (push_bit 1 bitmask) s)
                else Inl OutOfBounds)
             else signal_loop callback n (motor + 1) (push_bit 1 bitmask) s)
      else Inr s)"

definition signal_moves_finished ::
  "(ptr \<Rightarrow> ticker_state \<Rightarrow> ticker_state) \<Rightarrow> nat \<Rightarrow> ticker_state \<Rightarrow> fault + ticker_state"
where
  "signal_moves_finished callback fuel s =
     (case signal_loop callback fuel 0 1 (s\<lparr>isr_context := True\<rparr>) of
        Inl e \<Rightarrow> Inl e
      | Inr t \<Rightarrow> Inr (t\<lparr>moves_finished := False, isr_context := False\<rparr>))"

text \<open>
  The overrun catch-up of \<open>TIMER0_IRQHandler\<close> (the body of
  \<open>if (LPC_TIM0->TC > period)\<close>).  First loop: the minimum of \<open>ticks_to_skip\<close> and, for
  each active motor, the upper 32 bits of the unsigned 64-bit difference
  \<open>fx_ticks_per_step - fx_counter\<close>.
\<close>

fun min_slots :: "nat list \<Rightarrow> ticker_state \<Rightarrow> u32 \<Rightarrow> fault + u32" where
  "min_slots [] s acc = Inr acc"
| "min_slots (i # is) s acc =
     (if active_motor_bm s AND push_bit i 1 \<noteq> 0 then
        (if i < length (stepper_motors s) then
           (let m = motor_store s (stepper_motors s ! i)
            in min_slots is s
                 (min acc (ucast (drop_bit 32 (fx_ticks_per_step m - fx_counter m)))))
         else Inl OutOfBounds)
      else min_slots is s acc)"

text \<open>Second loop: \<open>fx_counter += (uint64_t)ticks_we_actually_can_skip << 32\<close>.\<close>

definition advance_counter :: "u32 \<Rightarrow> ptr \<Rightarrow> ticker_state \<Rightarrow> ticker_state" where
  "advance_counter n p s =
     s\<lparr>motor_store := (motor_store s)
          (p := (motor_store s p)\<lparr>fx_counter :=
                   fx_counter (motor_store s p) + push_bit 32 (ucast n)\<rparr>)\<rparr>"

text \<open>
  The three reads of \<open>TC\<close> inside the block are the arguments \<open>start_tc\<close>, \<open>tc\<close> (the
  one added to \<open>last_duration\<close>) and \<open>tc_end\<close>.  The division is a fault for a zero
  period.  \<open>difference\<close> is the 32-bit two's complement difference, compared as signed.
\<close>

definition overrun_catch_up :: "u32 \<Rightarrow> u32 \<Rightarrow> u32 \<Rightarrow> ticker_state \<Rightarrow> fault + ticker_state" where
  "overrun_catch_up start_tc tc tc_end s =
     (if period s = 0 then Inl DivByZero
      else
        (let ticks_to_skip = (tc + last_duration s) div period s
         in case min_slots [0..<12] s ticks_to_skip of
              Inl e \<Rightarrow> Inl e
            | Inr ticks_we_actually_can_skip \<Rightarrow>
                (case for_slots (advance_counter ticks_we_actually_can_skip) [0..<12] s of
                   Inl e \<Rightarrow> Inl e
                 | Inr s1 \<Rightarrow>
                     (let s2 = write_MR0 ((ticks_to_skip + 1) * period s1) s1;
                          difference = tc_end - start_tc
                      in Inr (if 0 <s difference
                              then s2\<lparr>last_duration := difference\<rparr> else s2)))))"

text \<open>
  \<open>while (LPC_TIM0->TC > LPC_TIM0->MR0) LPC_TIM0->MR0 += period\<close>.  Each test reads
  \<open>TC\<close> anew: the list holds the successive readings, and the loop has not been left if
  they are used up.
\<close>

fun mr0_past_tc :: "u32 list \<Rightarrow> ticker_state \<Rightarrow> fault + ticker_state" where
  "mr0_past_tc [] s = Inl LoopNotLeft"
| "mr0_past_tc (tc # tcs) s =
     (if tc > MR0 s then mr0_past_tc tcs (write_MR0 (MR0 s + period s) s) else Inr s)"

text \<open>The readings of \<open>TC\<close> that one handler invocation may take, in program order.\<close>

record tc_reads =
  tc_guard :: u32
  tc_start :: u32
  tc_skip :: u32
  tc_end :: u32
  tc_loop :: "u32 list"

text \<open>
  \<open>TIMER0_IRQHandler\<close>, in the three parts of its text: the MR1 match, the step pins of
  the MR0 match, and what follows when a pin was set.
\<close>

definition mr1_match :: "ticker_state \<Rightarrow> fault + ticker_state" where
  "mr1_match s =
     (if IR s AND push_bit 1 1 \<noteq> 0 then
        (let s1 = write_IR (push_bit 1 1) s;
             s2 = write_MCR (MCR s1 AND NOT MCR_MR1I) s1
         in reset_tick s2)
      else Inr s)"

definition moves_finished_part ::
  "(ptr \<Rightarrow> ticker_state \<Rightarrow> ticker_state) \<Rightarrow> nat \<Rightarrow> tc_reads \<Rightarrow> ticker_state
     \<Rightarrow> fault + ticker_state"
where
  "moves_finished_part callback fuel r s =
     (case signal_moves_finished callback fuel (write_MR0 (NOT 0) s) of
        Inl e \<Rightarrow> Inl e
      | Inr s1 \<Rightarrow>
          (case (if tc_guard r > period s1
                 then overrun_catch_up (tc_start r) (tc_skip r) (tc_end r) s1
                 else Inr (write_MR0 (period s1) s1)) of
             Inl e \<Rightarrow> Inl e
           | Inr s2 \<Rightarrow> mr0_past_tc (tc_loop r) s2))"

definition mr0_match ::
  "(ptr \<Rightarrow> ticker_state \<Rightarrow> ticker_state) \<Rightarrow> nat \<Rightarrow> tc_reads \<Rightarrow> ticker_state
     \<Rightarrow> fault + ticker_state"
where
  "mr0_match callback fuel r s =
     (if IR s AND push_bit 0 1 \<noteq> 0 then
        (case for_slots motor_tick [0..<12] (write_IR (push_bit 0 1) s) of
           Inl e \<Rightarrow> Inl e
         | Inr s1 \<Rightarrow>
             if reset_step_pins s1 then
               (let s2 = (write_MCR (MCR s1 OR MCR_MR1I) s1)\<lparr>reset_step_pins := False\<rparr>
                in if moves_finished s2 then moves_finished_part callback fuel r s2
                   else Inr s2)
             else Inr (write_MR0 (period s1) s1))
      else Inr s)"

definition TIMER0_IRQHandler ::
  "(ptr \<Rightarrow> ticker_state \<Rightarrow> ticker_state) \<Rightarrow> nat \<Rightarrow> tc_reads \<Rightarrow> ticker_state
     \<Rightarrow> fault + ticker_state"
where
  "TIMER0_IRQHandler callback fuel r s =
     (case mr1_match s of
        Inl e \<Rightarrow> Inl e
      | Inr s1 \<Rightarrow> mr0_match callback fuel r s1)"

text \<open>
  The hardware raises match flags between two invocations of the handler; a run is a list
  of invocations, each with the flags raised before it and the readings of \<open>TC\<close> it takes.
\<close>

fun run_handler ::
  "(ptr \<Rightarrow> ticker_state \<Rightarrow> ticker_state) \<Rightarrow> nat \<Rightarrow> (u32 \<times> tc_reads) list \<Rightarrow> ticker_state
     \<Rightarrow> fault + ticker_state"
where
  "run_handler callback fuel [] s = Inr s"
| "run_handler callback fuel ((flags, r) # rest) s =
     (case TIMER0_IRQHandler callback fuel r (s\<lparr>IR := IR s OR flags\<rparr>) of
        Inl e \<Rightarrow> Inl e
      | Inr s1 \<Rightarrow> run_handler callback fuel rest s1)"

section \<open>Auxiliary definitions for the statements\<close>

subsection \<open>Stepper\<close>

text \<open>The speed-update loop of \<open>set_step_events_per_second\<close>, named for the proofs.\<close>

definition speed_loop ::
  "rounding \<Rightarrow> real \<Rightarrow> ptr list \<Rightarrow> stepper_state \<Rightarrow> stepper_state"
where
  "speed_loop fl sps xs s =
     fold (\<lambda>a t. if moving (motors t a)
                   then set_speed a (fl (sps * rate_ratio (motors t a))) t else t)
          xs s"

text \<open>The value of \<open>trapezoid_adjusted_rate\<close> after one trapezoid tick.\<close>

definition rate_after :: "rounding \<Rightarrow> stepper_state \<Rightarrow> real option" where
  "rate_after fl s = (case trapezoid_generator_tick fl s of
                        Inl e \<Rightarrow> None | Inr t \<Rightarrow> Some (trapezoid_adjusted_rate t))"

text \<open>
  The acceleration rule in the words of the specification: "the rate is increased by
  exactly rate_delta and then clamped to nominal_rate".
\<close>

definition accel_rate_as_specified :: "real \<Rightarrow> real \<Rightarrow> real \<Rightarrow> real" where
  "accel_rate_as_specified rate rd nominal = min (rate + rd) nominal"

text \<open>
  The deceleration rule in the words of the specification: "rate -= rate_delta (unless
  result would go \<le> 0, then pin to rate_delta * 0.5); clamp to final_rate from below".
\<close>

definition decel_rate_as_specified :: "real \<Rightarrow> real \<Rightarrow> real \<Rightarrow> real" where
  "decel_rate_as_specified rate rd fin =
     max fin (if rate - rd \<le> 0 then rd * (1/2) else rate - rd)"

text \<open>The loop of the flush branch that stops every actuator, named for the proofs.\<close>

definition stop_loop :: "ptr list \<Rightarrow> stepper_state \<Rightarrow> stepper_state" where
  "stop_loop xs s = fold (\<lambda>i t. move i (direction (motors t i)) 0 t) xs s"

text \<open>The log without the block releases: the commands given to drivers and motors.\<close>

fun commands :: "event list \<Rightarrow> event list" where
  "commands [] = []"
| "commands (Release # es) = commands es"
| "commands (e # es) = e # commands es"

text \<open>A motor after \<open>move(direction, 0)\<close> with its own direction.\<close>

definition stopped :: "StepperMotor \<Rightarrow> StepperMotor" where
  "stopped m = m\<lparr>steps_to_move := 0, stepped := 0, moving := False, fx_counter := 0\<rparr>"

subsection \<open>Step ticker\<close>

text \<open>The first slot of a list that holds a given motor.\<close>

fun first_slot :: "ptr \<Rightarrow> ptr list \<Rightarrow> nat" where
  "first_slot m [] = 0"
| "first_slot m (x # xs) = (if x = m then 0 else Suc (first_slot m xs))"

text \<open>
  The active slots in the order in which the loops visit them, and the motors they hold.
\<close>

definition slot_active :: "ticker_state \<Rightarrow> nat \<Rightarrow> bool" where
  "slot_active s i \<longleftrightarrow> active_motor_bm s AND push_bit i 1 \<noteq> 0"

definition active_slots :: "ticker_state \<Rightarrow> nat list" where
  "active_slots s = filter (slot_active s) [0..<12]"

definition active_ptrs :: "ticker_state \<Rightarrow> ptr list" where
  "active_ptrs s = map (\<lambda>i. stepper_motors s ! i) (active_slots s)"

text \<open>
  Well-formedness of the active set: every active slot is inside the motor list and is
  the first slot holding its motor.  The constructor establishes it, and
  \<open>add_stepper_motor\<close> and, called with registered motors,
  \<open>add_motor_to_active_list\<close> and \<open>remove_motor_from_active_list\<close> keep it.
\<close>

definition ticker_inv :: "ticker_state \<Rightarrow> bool" where
  "ticker_inv s \<longleftrightarrow>
     list_all (\<lambda>i. i < length (stepper_motors s)
                    \<and> first_slot (stepper_motors s ! i) (stepper_motors s) = i)
              (active_slots s)"

text \<open>
  The whole ticks a motor can still take before its next pulse:
  \<open>(fx_ticks_per_step - fx_counter) >> 32\<close>, on the motor in slot \<open>i\<close>.
\<close>

definition skip_room :: "ticker_state \<Rightarrow> nat \<Rightarrow> u32" where
  "skip_room s i =
     ucast (drop_bit 32 (fx_ticks_per_step (motor_store s (stepper_motors s ! i))
                          - fx_counter (motor_store s (stepper_motors s ! i))))"

definition advanced :: "u32 \<Rightarrow> StepperMotor \<Rightarrow> StepperMotor" where
  "advanced n m = m\<lparr>fx_counter := fx_counter m + push_bit 32 (ucast n)\<rparr>"

text \<open>
  The timer is armed when it is enabled and not set to reset and stop at the next MR1
  match.
\<close>

definition timer_armed :: "ticker_state \<Rightarrow> bool" where
  "timer_armed s \<longleftrightarrow> TCR s AND TCR_ENABLE \<noteq> 0 \<and> MCR s AND (MCR_MR1R OR MCR_MR1S) = 0"

definition armed_iff_active :: "ticker_state \<Rightarrow> bool" where
  "armed_iff_active s \<longleftrightarrow> (timer_armed s \<longleftrightarrow> active_motor_bm s \<noteq> 0)"

text \<open>Sequences of calls on the active list.\<close>

datatype call = AddMotor ptr | RemoveMotor ptr

fun call_motor :: "call \<Rightarrow> ptr" where
  "call_motor (AddMotor m) = m"
| "call_motor (RemoveMotor m) = m"

fun do_call :: "call \<Rightarrow> ticker_state \<Rightarrow> fault + ticker_state" where
  "do_call (AddMotor m) s = add_motor_to_active_list m s"
| "do_call (RemoveMotor m) s = remove_motor_from_active_list m s"

fun run_calls :: "call list \<Rightarrow> ticker_state \<Rightarrow> fault + ticker_state" where
  "run_calls [] s = Inr s"
| "run_calls (c # cs) s = (case do_call c s of Inl e \<Rightarrow> Inl e | Inr t \<Rightarrow> run_calls cs t)"

text \<open>
  Pulse discipline in the words of the specification: "between any two asserts on the same
  pin there is at least one deassert".  \<open>high\<close> is the set of pins that are asserted
  when the events start.
\<close>

fun pulses_separated :: "ptr set \<Rightarrow> hw_event list \<Rightarrow> bool" where
  "pulses_separated high [] = True"
| "pulses_separated high (StepPin p # es) = (p \<notin> high \<and> pulses_separated (insert p high) es)"
| "pulses_separated high (Unstep p # es) = pulses_separated (high - {p}) es"
| "pulses_separated high (e # es) = pulses_separated high es"

fun pins :: "hw_event list \<Rightarrow> ptr list" where
  "pins [] = []"
| "pins (StepPin p # es) = p # pins es"
| "pins (e # es) = pins es"

fun ticked :: "hw_event list \<Rightarrow> ptr list" where
  "ticked [] = []"
| "ticked (Tick p # es) = p # ticked es"
| "ticked (e # es) = ticked es"

fun unstepped :: "hw_event list \<Rightarrow> ptr list" where
  "unstepped [] = []"
| "unstepped (Unstep p # es) = p # unstepped es"
| "unstepped (e # es) = unstepped es"

text \<open>Events that are neither a tick, nor a pin assertion, nor an unstep.\<close>

definition quiet :: "hw_event list \<Rightarrow> bool" where
  "quiet evs \<longleftrightarrow> pins evs = [] \<and> ticked evs = [] \<and> unstepped evs = []"

definition extends_quietly :: "ticker_state \<Rightarrow> ticker_state \<Rightarrow> bool" where
  "extends_quietly s s' \<longleftrightarrow> (\<exists>evs. trace s' = trace s @ evs \<and> quiet evs)"

section \<open>Example inputs\<close>

subsection \<open>Stepper\<close>

definition idle_motor :: StepperMotor where
  "idle_motor = \<lparr>steps_to_move = 0, stepped = 0, direction = False, moving = False,
                 is_move_finished = False, fx_counter = 0, fx_ticks_per_step = 0,
                 rate_ratio = 0, step_pin = False\<rparr>"

text \<open>A 1000-step move on the first axis: accelerate for 50 steps, decelerate after 950.\<close>

definition trapezoid_block :: Block where
  "trapezoid_block = \<lparr>steps = (\<lambda>i. if i = 0 then 1000 else 0), direction_bits = 0,
                       steps_event_count = 1000, initial_rate = 100, nominal_rate = 1000,
                       final_rate = 0, rate_delta = 10, accelerate_until = 50,
                       decelerate_after = 950, millimeters = 10\<rparr>"

text \<open>A short move that never cruises: the acceleration ends where the deceleration starts.\<close>

definition triangle_block :: Block where
  "triangle_block = trapezoid_block\<lparr>accelerate_until := 500, decelerate_after := 500\<rparr>"

definition zero_length_block :: Block where
  "zero_length_block = trapezoid_block\<lparr>millimeters := 0\<rparr>"

text \<open>A move of 50 steps on the second axis only.\<close>

definition y_axis_block :: Block where
  "y_axis_block = trapezoid_block\<lparr>steps := (\<lambda>i. if i = 1 then 50 else 0),
                                   steps_event_count := 50, accelerate_until := 10,
                                   decelerate_after := 40\<rparr>"

text \<open>
  Floats of the examples, as the fractions they denote: \<open>0.1F\<close>, \<open>33.3F\<close>,
  \<open>100.1F\<close> and \<open>1000.1F\<close> (the floats nearest to the decimal numbers), and the float
  with the bit pattern \<open>0x3e19999a\<close>, the next float above the exact product of
  \<open>0.1F\<close> and \<open>1.5\<close>.
\<close>

definition float_0_1 :: real where "float_0_1 = 13421773 / 2 ^ 27"
definition float_33_3 :: real where "float_33_3 = 8729395 / 2 ^ 18"
definition float_100_1 :: real where "float_100_1 = 13120307 / 2 ^ 17"
definition float_1000_1 :: real where "float_1000_1 = 8192819 / 2 ^ 13"
definition float_3e19999a :: real where "float_3e19999a = 5033165 / 2 ^ 25"

text \<open>Three actuators at rest, no block, drivers off.\<close>

definition idle_state :: stepper_state where
  "idle_state = \<lparr>current_block = None, main_stepper = None, paused = False,
                 force_speed_update = False, enable_pins_status = False,
                 trapezoid_adjusted_rate = 0, minimum_steps_per_second = 50,
                 actuators = [0, 1, 2], motors = (\<lambda>p. idle_motor), flush = False,
                 step_ticker_active_motor_bm = 0, frequency = 100000, log = []\<rparr>"

text \<open>The first actuator is executing \<open>trapezoid_block\<close> at 12 steps per second.\<close>

definition running_state :: "Block \<Rightarrow> u32 \<Rightarrow> stepper_state" where
  "running_state b n =
     idle_state\<lparr>current_block := Some b, main_stepper := Some 0,
                enable_pins_status := True, trapezoid_adjusted_rate := 12,
                motors := (\<lambda>p. idle_motor)
                  (0 := idle_motor\<lparr>steps_to_move := 1000, stepped := n, moving := True,
                                   rate_ratio := 1\<rparr>),
                step_ticker_active_motor_bm := 1\<rparr>"

text \<open>The same at a rate \<open>r\<close>, on a block with the rate step \<open>d\<close>.\<close>

definition running_at :: "real \<Rightarrow> real \<Rightarrow> u32 \<Rightarrow> stepper_state" where
  "running_at r d n =
     (running_state (trapezoid_block\<lparr>rate_delta := d\<rparr>) n)\<lparr>trapezoid_adjusted_rate := r\<rparr>"


subsection \<open>Step ticker\<close>

text \<open>
  The ticker as its constructor leaves it (match on MR0 with reset, timer disabled, no
  motor active), with three motors registered, a period of 250 timer ticks and a pulse
  width of 125.  The memory past the end of the motor list holds null pointers.
\<close>

definition boot_ticker :: ticker_state where
  "boot_ticker = \<lparr>stepper_motors = [7, 8, 9], active_motor_bm = 0, period = 250,
                  last_duration = 0, reset_step_pins = False, moves_finished = False,
                  isr_context = False, MR0 = 250, MR1 = 125, MCR = MCR_MR0I OR MCR_MR0R,
                  TCR = 0, IR = 0, motor_store = (\<lambda>p. idle_motor), trace = [],
                  past_the_end = (\<lambda>i. 0)\<rparr>"

text \<open>
  Thirteen motors registered, the motors 20 to 32: motor 32 is in slot 12, which the
  scans of the active list do not visit.
\<close>

definition crowded_ticker :: ticker_state where
  "crowded_ticker = boot_ticker\<lparr>stepper_motors := [20, 21, 22, 23, 24, 25, 26, 27, 28, 29, 30, 31, 32]\<rparr>"

text \<open>
  Two motors active in slots 0 and 1; the first is 3 whole ticks from its next pulse, the
  second 2.
\<close>

definition catch_up_state :: ticker_state where
  "catch_up_state =
     boot_ticker\<lparr>active_motor_bm := 3, TCR := TCR_ENABLE, last_duration := 40,
       motor_store := (\<lambda>p. idle_motor)
         (7 := idle_motor\<lparr>steps_to_move := 100, stepped := 10, moving := True,
                          fx_ticks_per_step := 5 * 2 ^ 32, fx_counter := 2 ^ 32 + 7\<rparr>,
          8 := idle_motor\<lparr>steps_to_move := 50, stepped := 5, moving := True,
                          fx_ticks_per_step := 10 * 2 ^ 32, fx_counter := 8 * 2 ^ 32\<rparr>)\<rparr>"

text \<open>An invocation that takes no reading of \<open>TC\<close>.\<close>

definition no_reads :: tc_reads where
  "no_reads = \<lparr>tc_guard = 0, tc_start = 0, tc_skip = 0, tc_end = 0, tc_loop = []\<rparr>"

text \<open>
  Both match flags pending; the pin of motor 7 is still high from the previous pulse, and
  motor 7 is due for its next pulse in this tick.
\<close>

definition both_pending_state :: ticker_state where
  "both_pending_state =
     boot_ticker\<lparr>active_motor_bm := 3, TCR := TCR_ENABLE, IR := 3,
       MCR := MCR_MR0I OR MCR_MR0R OR MCR_MR1I,
       motor_store := (\<lambda>p. idle_motor)
         (7 := idle_motor\<lparr>steps_to_move := 100, stepped := 10, moving := True,
                          fx_ticks_per_step := 2 ^ 32, fx_counter := 0, step_pin := True\<rparr>,
          8 := idle_motor\<lparr>steps_to_move := 50, stepped := 5, moving := True,
                          fx_ticks_per_step := 4 * 2 ^ 32, fx_counter := 0\<rparr>)\<rparr>"

text \<open>
  One motor stepping on every tick, with the pulse-reset match \<open>MR1\<close> set beyond the
  period: the counter is reset at each MR0 match and never reaches \<open>MR1\<close>.
\<close>

definition late_reset_state :: ticker_state where
  "late_reset_state =
     boot_ticker\<lparr>active_motor_bm := 1, TCR := TCR_ENABLE, MR1 := 300,
       motor_store := (\<lambda>p. idle_motor)
         (7 := idle_motor\<lparr>steps_to_move := 100, stepped := 10, moving := True,
                          fx_ticks_per_step := 2 ^ 32, fx_counter := 0\<rparr>)\<rparr>"

section \<open>Properties of Stepper.cpp\<close>

lemma emit_simps [simp]:
  "log (emit e s) = log s @ [e]"
  "motors (emit e s) = motors s"
  "actuators (emit e s) = actuators s"
  "current_block (emit e s) = current_block s"
  "main_stepper (emit e s) = main_stepper s"
  "trapezoid_adjusted_rate (emit e s) = trapezoid_adjusted_rate s"
  "minimum_steps_per_second (emit e s) = minimum_steps_per_second s"
  "frequency (emit e s) = frequency s"
  "paused (emit e s) = paused s"
  "force_speed_update (emit e s) = force_speed_update s"
  "enable_pins_status (emit e s) = enable_pins_status s"
  "flush (emit e s) = flush s"
  "step_ticker_active_motor_bm (emit e s) = step_ticker_active_motor_bm s"
  by (simp_all add: emit_def)

subsection \<open>The float format\<close>

lemma binade_numeral:
  "binade (numeral k) a e =
     (if 2 \<le> a then binade (pred_numeral k) (a / 2) (e + 1)
      else if a < 1 then binade (pred_numeral k) (a * 2) (e - 1)
      else e)"
  by (simp add: numeral_eq_Suc)

lemmas binary32_eval =
  round_binary32_def binade_numeral round_half_even_def pow2_def Let_def

text \<open>
  The example floats are floats, and the roundings that the examples meet: \<open>2^24 + 1\<close>
  lies halfway between two floats and goes to the even one; the exact product of
  \<open>0.1F\<close> and \<open>1.5\<close> goes up; the half of \<open>0.1F\<close> is a float.
\<close>

lemma binary32_examples:
  "round_binary32 (1 / 10) = float_0_1"
  "round_binary32 (333 / 10) = float_33_3"
  "round_binary32 (1001 / 10) = float_100_1"
  "round_binary32 (10001 / 10) = float_1000_1"
  "round_binary32 float_0_1 = float_0_1"
  "round_binary32 float_3e19999a = float_3e19999a"
  "round_binary32 (2 ^ 24 + 1) = 2 ^ 24"
  "round_binary32 (float_0_1 * (3/2)) = float_3e19999a"
  "round_binary32 (float_0_1 * (1/2)) = float_0_1 / 2"
  "float_0_1 * (3/2) < float_3e19999a"
  by (simp_all add: binary32_eval float_0_1_def float_33_3_def float_100_1_def
        float_1000_1_def float_3e19999a_def)

subsection \<open>The speed update\<close>

lemma speed_loop_Nil [simp]: "speed_loop fl sps [] s = s"
  by (simp add: speed_loop_def)

lemma speed_loop_Cons [simp]:
  "speed_loop fl sps (a # xs) s =
     speed_loop fl sps xs
       (if moving (motors s a) then set_speed a (fl (sps * rate_ratio (motors s a))) s else s)"
  by (simp add: speed_loop_def)

lemma set_speed_fields [simp]:
  "log (set_speed p v s) = log s @ [SetSpeed p v]"
  "motors (set_speed p v s) =
     (motors s)(p := (motors s p)\<lparr>fx_ticks_per_step := speed_to_fx (frequency s) v\<rparr>)"
  "actuators (set_speed p v s) = actuators s"
  "current_block (set_speed p v s) = current_block s"
  "main_stepper (set_speed p v s) = main_stepper s"
  "trapezoid_adjusted_rate (set_speed p v s) = trapezoid_adjusted_rate s"
  "minimum_steps_per_second (set_speed p v s) = minimum_steps_per_second s"
  "frequency (set_speed p v s) = frequency s"
  by (simp_all add: set_speed_def)

lemma set_speed_keeps:
  "moving (motors (set_speed p v s) x) = moving (motors s x)"
  "rate_ratio (motors (set_speed p v s) x) = rate_ratio (motors s x)"
  by (simp_all add: set_speed_def emit_def)

lemma speed_loop_frame:
  "actuators (speed_loop fl sps xs s) = actuators s \<and>
   current_block (speed_loop fl sps xs s) = current_block s \<and>
   main_stepper (speed_loop fl sps xs s) = main_stepper s \<and>
   trapezoid_adjusted_rate (speed_loop fl sps xs s) = trapezoid_adjusted_rate s \<and>
   minimum_steps_per_second (speed_loop fl sps xs s) = minimum_steps_per_second s \<and>
   frequency (speed_loop fl sps xs s) = frequency s"
  by (induction xs arbitrary: s) auto

lemma speed_loop_motor:
  "motors (speed_loop fl sps xs s) p =
     (if p \<in> set xs \<and> moving (motors s p)
      then (motors s p)\<lparr>fx_ticks_per_step :=
              speed_to_fx (frequency s) (fl (sps * rate_ratio (motors s p)))\<rparr>
      else motors s p)"
  by (induction xs arbitrary: s) (auto simp: speed_loop_frame)

lemma speed_loop_log:
  "log (speed_loop fl sps xs s) =
     log s @ map (\<lambda>a. SetSpeed a (fl (sps * rate_ratio (motors s a))))
                 (filter (\<lambda>a. moving (motors s a)) xs)"
proof (induction xs arbitrary: s)
  case Nil
  show ?case by simp
next
  case (Cons a xs)
  show ?case
  proof (cases "moving (motors s a)")
    case True
    then show ?thesis
      by (simp only: speed_loop_Cons if_True Cons.IH set_speed_keeps set_speed_fields(1)
            filter.simps list.map append_assoc append_Cons append_Nil)
  next
    case False
    then show ?thesis
      by (simp add: Cons.IH)
  qed
qed

lemma set_step_events_unfold:
  "set_step_events_per_second fl r s =
     emit SpeedChange (speed_loop fl (max r (minimum_steps_per_second s)) (actuators s) s)"
proof -
  have "(if r < minimum_steps_per_second s then minimum_steps_per_second s else r)
        = max r (minimum_steps_per_second s)"
    by (simp add: max_def)
  then show ?thesis
    unfolding set_step_events_per_second_def speed_loop_def Let_def by (simp only:)
qed

lemma set_step_events_frame [simp]:
  "trapezoid_adjusted_rate (set_step_events_per_second fl r s) = trapezoid_adjusted_rate s"
  "current_block (set_step_events_per_second fl r s) = current_block s"
  "main_stepper (set_step_events_per_second fl r s) = main_stepper s"
  "actuators (set_step_events_per_second fl r s) = actuators s"
  by (simp_all add: set_step_events_unfold speed_loop_frame)

text \<open>
  C8.  In \<open>set_step_events_per_second r\<close> the applied rate is
  \<open>max r minimum_steps_per_second\<close>.  The calls made are, in the order of the actuator
  list, one \<open>set_speed (applied * rate_ratio)\<close> for each actuator whose \<open>moving\<close> flag is
  set and none for the others, followed by the \<open>ON_SPEED_CHANGE\<close> broadcast; the product
  is the float product, the exact product rounded.  A motor that is not moving is left
  exactly as it was; a moving actuator has only its \<open>fx_ticks_per_step\<close> recomputed, from
  the applied rate times its own ratio.
\<close>

theorem set_step_events_per_second_applies:
  "log (set_step_events_per_second fl r s) =
     log s @ map (\<lambda>a. SetSpeed a (fl (max r (minimum_steps_per_second s) * rate_ratio (motors s a))))
                 (filter (\<lambda>a. moving (motors s a)) (actuators s)) @ [SpeedChange]
   \<and> (\<forall>p. p \<in> set (actuators s) \<and> moving (motors s p) \<longrightarrow>
          motors (set_step_events_per_second fl r s) p =
            (motors s p)\<lparr>fx_ticks_per_step :=
               speed_to_fx (frequency s)
                 (fl (max r (minimum_steps_per_second s) * rate_ratio (motors s p)))\<rparr>)
   \<and> (\<forall>p. \<not> moving (motors s p) \<longrightarrow> motors (set_step_events_per_second fl r s) p = motors s p)"
  by (simp add: set_step_events_unfold speed_loop_log speed_loop_motor)

text \<open>
  A rate of 12 is raised to the minimum of 50.  At \<open>1000.1F\<close> an actuator with the ratio
  \<open>0.75\<close> is given the float \<open>3072307 / 4096\<close>, where the exact product is
  \<open>24578457 / 32768\<close>.
\<close>

theorem set_step_events_per_second_applies_witness:
  "log (set_step_events_per_second round_binary32 12 (running_state trapezoid_block 3)) =
     [SetSpeed 0 50, SpeedChange]
   \<and> motors (set_step_events_per_second round_binary32 12 (running_state trapezoid_block 3)) 1
       = idle_motor
   \<and> fx_ticks_per_step
        (motors (set_step_events_per_second round_binary32 12 (running_state trapezoid_block 3)) 0)
       = speed_to_fx 100000 50
   \<and> log (set_step_events_per_second round_binary32 float_1000_1
            ((running_state trapezoid_block 3)
               \<lparr>motors := (\<lambda>p. idle_motor\<lparr>moving := (p = 0), rate_ratio := 3/4\<rparr>)\<rparr>)) =
       [SetSpeed 0 (3072307 / 4096), SpeedChange]"
proof -
  let ?s = "running_state trapezoid_block 3"
  let ?t = "?s\<lparr>motors := (\<lambda>p. idle_motor\<lparr>moving := (p = 0), rate_ratio := 3/4\<rparr>)\<rparr>"
  have r: "round_binary32 50 = 50"
    "round_binary32 (float_1000_1 * 3 / 4) = 3072307 / 4096"
    "max float_1000_1 50 = float_1000_1"
    by (simp_all add: binary32_eval float_1000_1_def)
  from set_step_events_per_second_applies [of round_binary32 12 ?s]
  have a: "log (set_step_events_per_second round_binary32 12 ?s) = [SetSpeed 0 50, SpeedChange]"
      "motors (set_step_events_per_second round_binary32 12 ?s) 1 = idle_motor"
      "fx_ticks_per_step (motors (set_step_events_per_second round_binary32 12 ?s) 0)
         = speed_to_fx 100000 50"
    by (simp_all add: running_state_def idle_state_def idle_motor_def r(1))
  from set_step_events_per_second_applies [of round_binary32 float_1000_1 ?t]
  have b: "log (set_step_events_per_second round_binary32 float_1000_1 ?t)
             = [SetSpeed 0 (3072307 / 4096), SpeedChange]"
    by (simp add: running_state_def idle_state_def idle_motor_def r)
  from a b show ?thesis by simp
qed

subsection \<open>The trapezoid generator\<close>

text \<open>
  C6, as the code has it.  A trapezoid tick in the acceleration phase (a block is current,
  not paused, some motor active, no forced speed update, no flush, and
  \<open>main_stepper->stepped \<le> accelerate_until + 1\<close>) replaces the rate by the float sum
  of the rate and \<open>rate_delta\<close>, which is the exact sum rounded to a float, and clamps
  it to \<open>nominal_rate\<close>; that value is stored in \<open>trapezoid_adjusted_rate\<close> and passed
  to \<open>set_step_events_per_second\<close>, and it does not exceed \<open>nominal_rate\<close>.  When the
  exact sum is a float, so that the addition does not round, this is the rate increased by
  exactly \<open>rate_delta\<close> and clamped.
\<close>

theorem trapezoid_accelerating:
  assumes "current_block s = Some b" and "\<not> paused s" and "step_ticker_active_motor_bm s \<noteq> 0"
    and "main_stepper s = Some mp"
    and "\<not> force_speed_update s" and "\<not> flush s"
    and "stepped (motors s mp) \<le> accelerate_until b + 1"
  shows "trapezoid_generator_tick fl s =
           Inr (set_step_events_per_second fl
                  (min (fl (trapezoid_adjusted_rate s + rate_delta b)) (nominal_rate b))
                  (s\<lparr>trapezoid_adjusted_rate :=
                       min (fl (trapezoid_adjusted_rate s + rate_delta b)) (nominal_rate b)\<rparr>))
         \<and> rate_after fl s =
             Some (min (fl (trapezoid_adjusted_rate s + rate_delta b)) (nominal_rate b))
         \<and> (\<forall>r. rate_after fl s = Some r \<longrightarrow> r \<le> nominal_rate b)
         \<and> (fl (trapezoid_adjusted_rate s + rate_delta b) = trapezoid_adjusted_rate s + rate_delta b
              \<longrightarrow> rate_after fl s =
                    Some (accel_rate_as_specified (trapezoid_adjusted_rate s) (rate_delta b)
                            (nominal_rate b)))"
proof -
  let ?sum = "fl (trapezoid_adjusted_rate s + rate_delta b)"
  have clamp: "(if nominal_rate b < ?sum then nominal_rate b else ?sum)
               = min ?sum (nominal_rate b)"
    by (simp add: min_def)
  have "trapezoid_generator_tick fl s =
           Inr (set_step_events_per_second fl (min ?sum (nominal_rate b))
                  (s\<lparr>trapezoid_adjusted_rate := min ?sum (nominal_rate b)\<rparr>))"
    using assms by (simp add: trapezoid_generator_tick_def Let_def clamp)
  then show ?thesis
    by (simp add: rate_after_def accel_rate_as_specified_def)
qed

lemma running_guard:
  "current_block (running_at r d n) = Some (trapezoid_block\<lparr>rate_delta := d\<rparr>)"
  "\<not> paused (running_at r d n)" "step_ticker_active_motor_bm (running_at r d n) \<noteq> 0"
  "main_stepper (running_at r d n) = Some 0" "\<not> force_speed_update (running_at r d n)"
  "\<not> flush (running_at r d n)" "stepped (motors (running_at r d n) 0) = n"
  "trapezoid_adjusted_rate (running_at r d n) = r"
  by (simp_all add: running_at_def running_state_def idle_state_def)

lemma trapezoid_block_fields:
  "rate_delta (trapezoid_block\<lparr>rate_delta := d\<rparr>) = d"
  "nominal_rate (trapezoid_block\<lparr>rate_delta := d\<rparr>) = 1000"
  "final_rate (trapezoid_block\<lparr>rate_delta := d\<rparr>) = 0"
  "accelerate_until (trapezoid_block\<lparr>rate_delta := d\<rparr>) = 50"
  "decelerate_after (trapezoid_block\<lparr>rate_delta := d\<rparr>) = 950"
  by (simp_all add: trapezoid_block_def)

text \<open>
  From 12 by 10 to 22; from 995 by 10 to the nominal rate 1000; from \<open>100.1F\<close> by
  \<open>33.3F\<close> to the float \<open>4371251 / 2^15\<close>.
\<close>

theorem trapezoid_accelerating_witness:
  "rate_after round_binary32 (running_at 12 10 3) = Some 22
   \<and> rate_after round_binary32 (running_at 995 10 51) = Some 1000
   \<and> rate_after round_binary32 (running_at float_100_1 float_33_3 3) = Some (4371251 / 2 ^ 15)"
proof -
  have g: "stepped (motors (running_at r d 3) 0)
             \<le> accelerate_until (trapezoid_block\<lparr>rate_delta := d\<rparr>) + 1"
      "stepped (motors (running_at r d 51) 0)
             \<le> accelerate_until (trapezoid_block\<lparr>rate_delta := d\<rparr>) + 1" for r d
    by (simp_all add: running_guard trapezoid_block_fields)
  have r: "round_binary32 22 = 22" "round_binary32 1005 = 1005"
    "round_binary32 (float_100_1 + float_33_3) = 4371251 / 2 ^ 15"
    "(4371251 :: real) / 2 ^ 15 \<le> 1000"
    by (simp_all add: binary32_eval float_100_1_def float_33_3_def)
  from trapezoid_accelerating [OF running_guard(1-6) g(1), of round_binary32 12 10]
  have a: "rate_after round_binary32 (running_at 12 10 3) = Some 22"
    by (simp add: running_guard trapezoid_block_fields r)
  from trapezoid_accelerating [OF running_guard(1-6) g(2), of round_binary32 995 10]
  have b: "rate_after round_binary32 (running_at 995 10 51) = Some 1000"
    by (simp add: running_guard trapezoid_block_fields r)
  from trapezoid_accelerating [OF running_guard(1-6) g(1), of round_binary32 float_100_1 float_33_3]
  have c: "rate_after round_binary32 (running_at float_100_1 float_33_3 3) = Some (4371251 / 2 ^ 15)"
    using r(4) by (simp add: running_guard trapezoid_block_fields r(3) min_def)
  from a b c show ?thesis by simp
qed

text \<open>
  C6, as the specification words it, fails on the code: the rate is not increased by
  exactly \<open>rate_delta\<close> when the exact sum is not a float.  From \<open>100.1F\<close> by
  \<open>33.3F\<close> the exact sum is \<open>34970009 / 2^18\<close>; the code stores the float
  \<open>34970008 / 2^18\<close>.  From \<open>2^24\<close> by 1, on a block whose nominal rate is \<open>2^25\<close>,
  the rate stays \<open>2^24\<close>.
\<close>

theorem trapezoid_accelerating_counterexample:
  "current_block (running_at float_100_1 float_33_3 3)
      = Some (trapezoid_block\<lparr>rate_delta := float_33_3\<rparr>)
   \<and> \<not> paused (running_at float_100_1 float_33_3 3)
   \<and> step_ticker_active_motor_bm (running_at float_100_1 float_33_3 3) \<noteq> 0
   \<and> \<not> force_speed_update (running_at float_100_1 float_33_3 3)
   \<and> \<not> flush (running_at float_100_1 float_33_3 3)
   \<and> stepped (motors (running_at float_100_1 float_33_3 3) 0)
        \<le> accelerate_until (trapezoid_block\<lparr>rate_delta := float_33_3\<rparr>) + 1
   \<and> rate_after round_binary32 (running_at float_100_1 float_33_3 3) = Some (34970008 / 2 ^ 18)
   \<and> accel_rate_as_specified float_100_1 float_33_3 1000 = 34970009 / 2 ^ 18
   \<and> rate_after round_binary32
        ((running_state (trapezoid_block\<lparr>rate_delta := 1, nominal_rate := 2 ^ 25\<rparr>) 3)
           \<lparr>trapezoid_adjusted_rate := 2 ^ 24\<rparr>) = Some (2 ^ 24)
   \<and> accel_rate_as_specified (2 ^ 24) 1 (2 ^ 25) = 2 ^ 24 + 1"
  by (simp add: rate_after_def trapezoid_generator_tick_def running_at_def running_state_def
        idle_state_def idle_motor_def trapezoid_block_def accel_rate_as_specified_def
        float_100_1_def float_33_3_def binary32_eval)

text \<open>
  C5, as the code has it.  A trapezoid tick reaches the deceleration branch when a block is
  current, not paused, some motor active, no forced speed update, no flush,
  \<open>main_stepper->stepped\<close> is above \<open>accelerate_until + 1\<close> (the acceleration test comes
  first) and above \<open>decelerate_after\<close>.  There the rate is replaced by the float
  difference of the rate and \<open>rate_delta\<close> when it is above the float product
  \<open>rate_delta * 1.5F\<close>, and by the float product \<open>rate_delta * 0.5F\<close> otherwise; the
  result is then raised to \<open>final_rate\<close> if it is below.  When \<open>rate_delta\<close> is not
  above its float product with \<open>1.5F\<close>, every rate whose decrement would be \<open>\<le> 0\<close>
  is among the pinned ones.
\<close>

theorem trapezoid_decelerating:
  assumes "current_block s = Some b" and "\<not> paused s" and "step_ticker_active_motor_bm s \<noteq> 0"
    and "main_stepper s = Some mp"
    and "\<not> force_speed_update s" and "\<not> flush s"
    and "\<not> stepped (motors s mp) \<le> accelerate_until b + 1"
    and "stepped (motors s mp) > decelerate_after b"
  shows "rate_after fl s =
           Some (max (final_rate b)
                  (if trapezoid_adjusted_rate s > fl (rate_delta b * (3/2))
                   then fl (trapezoid_adjusted_rate s - rate_delta b)
                   else fl (rate_delta b * (1/2))))
         \<and> (\<forall>r. rate_after fl s = Some r \<longrightarrow> final_rate b \<le> r)
         \<and> (rate_delta b \<le> fl (rate_delta b * (3/2))
                \<and> trapezoid_adjusted_rate s - rate_delta b \<le> 0 \<longrightarrow>
              rate_after fl s = Some (max (final_rate b) (fl (rate_delta b * (1/2)))))"
proof -
  let ?r1 = "if trapezoid_adjusted_rate s > fl (rate_delta b * (3/2))
             then fl (trapezoid_adjusted_rate s - rate_delta b) else fl (rate_delta b * (1/2))"
  have clamp: "(if ?r1 < final_rate b then final_rate b else ?r1) = max (final_rate b) ?r1"
    by (simp add: max_def)
  have "trapezoid_generator_tick fl s =
          Inr (set_step_events_per_second fl (max (final_rate b) ?r1)
                 (s\<lparr>trapezoid_adjusted_rate := max (final_rate b) ?r1\<rparr>))"
    using assms unfolding trapezoid_generator_tick_def Let_def clamp by simp
  then have "rate_after fl s = Some (max (final_rate b) ?r1)"
    by (simp add: rate_after_def)
  then show ?thesis
    by auto
qed

text \<open>
  From 40 by 10 to 30, from 12 and from 8 by 10 to the pinned 5.  With \<open>rate_delta = 0.1F\<close> the
  float product \<open>rate_delta * 1.5F\<close> is the float \<open>0x3e19999a\<close>, which lies above the
  exact product: a rate of \<open>0x3e19999a\<close> is not above the float product and is pinned
  to the half of \<open>0.1F\<close>.
\<close>

theorem trapezoid_decelerating_witness:
  "rate_after round_binary32 (running_at 12 10 960) = Some 5
   \<and> rate_after round_binary32 (running_at 8 10 960) = Some 5
   \<and> rate_after round_binary32 (running_at 40 10 960) = Some 30
   \<and> rate_after round_binary32 (running_at float_3e19999a float_0_1 960) = Some (float_0_1 / 2)"
proof -
  have g: "\<not> stepped (motors (running_at r d 960) 0)
               \<le> accelerate_until (trapezoid_block\<lparr>rate_delta := d\<rparr>) + 1"
      "stepped (motors (running_at r d 960) 0)
         > decelerate_after (trapezoid_block\<lparr>rate_delta := d\<rparr>)" for r d
    by (simp_all add: running_guard trapezoid_block_fields)
  have r: "round_binary32 15 = 15" "round_binary32 5 = 5" "round_binary32 30 = 30"
    by (simp_all add: binary32_eval)
  have pos: "0 \<le> float_0_1 / 2" by (simp add: float_0_1_def)
  from trapezoid_decelerating [OF running_guard(1-6) g, of round_binary32 12 10]
  have a: "rate_after round_binary32 (running_at 12 10 960) = Some 5"
    by (simp add: running_guard trapezoid_block_fields r)
  from trapezoid_decelerating [OF running_guard(1-6) g, of round_binary32 8 10]
  have a': "rate_after round_binary32 (running_at 8 10 960) = Some 5"
    by (simp add: running_guard trapezoid_block_fields r)
  from trapezoid_decelerating [OF running_guard(1-6) g, of round_binary32 40 10]
  have b: "rate_after round_binary32 (running_at 40 10 960) = Some 30"
    by (simp add: running_guard trapezoid_block_fields r)
  from trapezoid_decelerating [OF running_guard(1-6) g, of round_binary32 float_3e19999a float_0_1]
  have c: "rate_after round_binary32 (running_at float_3e19999a float_0_1 960)
             = Some (float_0_1 / 2)"
    using pos
    by (simp only: running_guard trapezoid_block_fields binary32_examples) (simp add: max_def)
  from a a' b c show ?thesis by simp
qed

text \<open>
  C5, as the specification words it, fails on the code in two ways.  With
  \<open>rate_delta = 10\<close> and a rate of 12 the decrement would leave 2, which is not \<open>\<le> 0\<close>,
  yet the code pins the rate to 5; every value involved is a float, and no operation
  rounds.  And on a block whose acceleration ends where its deceleration starts, the tick
  at \<open>stepped = decelerate_after + 1\<close> is still an acceleration tick: the rate goes up
  to 22.
\<close>

theorem trapezoid_decelerating_counterexample:
  "current_block (running_state trapezoid_block 960) = Some trapezoid_block
   \<and> \<not> paused (running_state trapezoid_block 960)
   \<and> step_ticker_active_motor_bm (running_state trapezoid_block 960) \<noteq> 0
   \<and> \<not> force_speed_update (running_state trapezoid_block 960)
   \<and> \<not> flush (running_state trapezoid_block 960)
   \<and> stepped (motors (running_state trapezoid_block 960) 0) > decelerate_after trapezoid_block
   \<and> rate_after round_binary32 (running_state trapezoid_block 960) = Some 5
   \<and> decel_rate_as_specified (trapezoid_adjusted_rate (running_state trapezoid_block 960))
        (rate_delta trapezoid_block) (final_rate trapezoid_block) = 2
   \<and> current_block (running_state triangle_block 501) = Some triangle_block
   \<and> stepped (motors (running_state triangle_block 501) 0) > decelerate_after triangle_block
   \<and> rate_after round_binary32 (running_state triangle_block 501) = Some 22
   \<and> decel_rate_as_specified (trapezoid_adjusted_rate (running_state triangle_block 501))
        (rate_delta triangle_block) (final_rate triangle_block) = 2"
  by (simp add: rate_after_def trapezoid_generator_tick_def running_state_def idle_state_def
        idle_motor_def trapezoid_block_def triangle_block_def decel_rate_as_specified_def
        binary32_eval)

subsection \<open>Block begin\<close>

text \<open>
  C7.  A block with \<open>millimeters = 0\<close>, or with all three of its ALPHA, BETA and GAMMA
  step counts zero, leaves the whole state as it was: nothing is logged (no \<open>take()\<close>, no
  driver enable, no motor move) and \<open>current_block\<close>, \<open>main_stepper\<close> and the trapezoid
  rate keep their values.
\<close>

theorem on_block_begin_skips_zero_block:
  assumes "millimeters b = 0 \<or> (steps b 0 = 0 \<and> steps b 1 = 0 \<and> steps b 2 = 0)"
  shows "on_block_begin fl b s = Inr s"
  using assms by (auto simp: on_block_begin_def)

theorem on_block_begin_skips_zero_block_witness:
  "on_block_begin round_binary32 zero_length_block idle_state = Inr idle_state
   \<and> on_block_begin round_binary32 (trapezoid_block\<lparr>steps := (\<lambda>i. 0)\<rparr>) idle_state
       = Inr idle_state"
  using on_block_begin_skips_zero_block [of zero_length_block round_binary32 idle_state]
    on_block_begin_skips_zero_block
      [of "trapezoid_block\<lparr>steps := (\<lambda>i. 0)\<rparr>" round_binary32 idle_state]
  by (simp add: zero_length_block_def trapezoid_block_def)

subsection \<open>Flushing\<close>

lemma commands_append [simp]: "commands (xs @ ys) = commands xs @ commands ys"
  by (induction xs rule: commands.induct) auto

lemma finished_move_frame [simp]:
  "motors (stepper_motor_finished_move s) = motors s"
  "actuators (stepper_motor_finished_move s) = actuators s"
  "current_block (stepper_motor_finished_move s) = current_block s"
  "main_stepper (stepper_motor_finished_move s) = main_stepper s"
  "trapezoid_adjusted_rate (stepper_motor_finished_move s) = trapezoid_adjusted_rate s"
  "commands (log (stepper_motor_finished_move s)) = commands (log s)"
  by (simp_all add: stepper_motor_finished_move_def split: option.splits)

lemma finished_move_log:
  "\<exists>rs. log (stepper_motor_finished_move s) = log s @ rs \<and> commands rs = []"
  by (simp add: stepper_motor_finished_move_def split: option.splits)

lemma move_zero:
  "motors (move p (direction (motors s p)) 0 s) = (motors s)(p := stopped (motors s p))"
  "actuators (move p d 0 s) = actuators s"
  "current_block (move p d 0 s) = current_block s"
  "main_stepper (move p d 0 s) = main_stepper s"
  "trapezoid_adjusted_rate (move p d 0 s) = trapezoid_adjusted_rate s"
  "\<exists>rs. log (move p d 0 s) = log s @ Move p d 0 # rs \<and> commands rs = []"
proof -
  let ?s1 = "emit (Move p d 0) (s\<lparr>motors := (motors s)(p := (motors s p)
               \<lparr>steps_to_move := 0, stepped := 0, direction := d, moving := (0 < (0 :: u32)),
                fx_counter := 0\<rparr>)\<rparr>)"
  have m: "move p d 0 s = stepper_motor_finished_move ?s1"
    by (simp add: move_def Let_def)
  show "motors (move p (direction (motors s p)) 0 s) = (motors s)(p := stopped (motors s p))"
    by (simp add: move_def Let_def stopped_def)
  show "actuators (move p d 0 s) = actuators s" "current_block (move p d 0 s) = current_block s"
    "main_stepper (move p d 0 s) = main_stepper s"
    "trapezoid_adjusted_rate (move p d 0 s) = trapezoid_adjusted_rate s"
    by (simp_all add: m)
  from finished_move_log [of ?s1]
  show "\<exists>rs. log (move p d 0 s) = log s @ Move p d 0 # rs \<and> commands rs = []"
    unfolding m by auto
qed

lemma stop_loop_Nil [simp]: "stop_loop [] s = s"
  by (simp add: stop_loop_def)

lemma stop_loop_Cons [simp]:
  "stop_loop (a # xs) s = stop_loop xs (move a (direction (motors s a)) 0 s)"
  by (simp add: stop_loop_def)

lemma stop_loop_frame:
  "actuators (stop_loop xs s) = actuators s \<and> current_block (stop_loop xs s) = current_block s
   \<and> main_stepper (stop_loop xs s) = main_stepper s
   \<and> trapezoid_adjusted_rate (stop_loop xs s) = trapezoid_adjusted_rate s"
  by (induction xs arbitrary: s) (simp_all add: move_zero)

lemma stopped_idem [simp]: "stopped (stopped m) = stopped m" "direction (stopped m) = direction m"
  by (simp_all add: stopped_def)






subsection \<open>The main stepper\<close>

lemma enable_loop_frame:
  "motors (fold (\<lambda>a. emit (Enable a True)) xs s) = motors s
   \<and> actuators (fold (\<lambda>a. emit (Enable a True)) xs s) = actuators s"
  by (induction xs arbitrary: s) simp_all

lemma turn_enable_pins_on_frame [simp]:
  "motors (turn_enable_pins_on s) = motors s" "actuators (turn_enable_pins_on s) = actuators s"
  by (simp_all add: turn_enable_pins_on_def enable_loop_frame)

lemma find_main_stepper_cong:
  "motors t = motors s \<Longrightarrow> actuators t = actuators s \<Longrightarrow>
     find_main_stepper t = find_main_stepper s"
  unfolding find_main_stepper_def by (simp only:)

lemma move_main [simp]: "main_stepper (move p d n s) = main_stepper s"
  by (simp add: move_def Let_def)

lemma setup_axes_main:
  "setup_axes fl b is s = Inr t \<Longrightarrow> main_stepper t = main_stepper s"
proof (induction "is" arbitrary: s)
  case Nil
  then show ?case by simp
next
  case (Cons i "is")
  then show ?case
    by (auto simp: Let_def split: if_splits)
qed

lemma tick_main:
  "trapezoid_generator_tick fl s = Inr t \<Longrightarrow> main_stepper t = main_stepper s"
  by (auto simp: trapezoid_generator_tick_def Let_def stop_loop_def [symmetric] stop_loop_frame
        split: option.splits if_splits)

lemma sync_main:
  "synchronize_acceleration s = Inr t \<Longrightarrow> main_stepper t = main_stepper s"
  by (auto simp: synchronize_acceleration_def Let_def split: option.splits if_splits)

lemma on_block_begin_main_stepper:
  assumes "on_block_begin fl b s = Inr t" and "millimeters b \<noteq> 0"
    and "steps b 0 > 0 \<or> steps b 1 > 0 \<or> steps b 2 > 0"
  shows "main_stepper t = find_main_stepper s"
proof -
  let ?s1 = "emit Take s"
  let ?s2 = "if enable_pins_status ?s1 = False then turn_enable_pins_on ?s1 else ?s1"
  let ?s4 = "trapezoid_generator_reset b (?s2\<lparr>current_block := Some b\<rparr>)"
  let ?s5 = "?s4\<lparr>main_stepper := find_main_stepper ?s4\<rparr>"
  have same: "motors ?s4 = motors s" "actuators ?s4 = actuators s"
    by (simp_all add: trapezoid_generator_reset_def)
  have f: "find_main_stepper ?s4 = find_main_stepper s"
    using same by (rule find_main_stepper_cong)
  from assms obtain s6 s7 where
    a: "setup_axes fl b [0, 1, 2] ?s5 = Inr s6" and b: "trapezoid_generator_tick fl s6 = Inr s7"
    and c: "synchronize_acceleration s7 = Inr t"
    unfolding on_block_begin_def Let_def by (auto split: sum.splits if_splits)
  have "main_stepper t = main_stepper ?s5"
    using setup_axes_main [OF a] tick_main [OF b] sync_main [OF c] by simp
  also have "\<dots> = find_main_stepper ?s4" by simp
  also note f
  finally show ?thesis .
qed

text \<open>
  C3 fails on the code.  \<open>on_block_begin\<close> searches for the largest \<open>steps_to_move\<close>
  before it calls \<open>move\<close> on the actuators, so the search sees the step counts of the
  previous move (\<open>on_block_begin_main_stepper\<close>: the choice is a function of the state
  before the block alone).  On three actuators at rest with all counts zero, a block of
  50 steps on the second axis leaves \<open>main_stepper\<close> on the first actuator, which has
  nothing to move, while the second actuator has the 50 steps.
\<close>

theorem main_stepper_is_stale:
  "millimeters y_axis_block \<noteq> 0 \<and> steps y_axis_block 1 \<noteq> 0
   \<and> (case on_block_begin round_binary32 y_axis_block idle_state of
     Inl e \<Rightarrow> False
   | Inr t \<Rightarrow> main_stepper t = Some 0
              \<and> steps_to_move (motors t 0) = 0 \<and> \<not> moving (motors t 0)
              \<and> steps_to_move (motors t 1) = 50 \<and> moving (motors t 1)
              \<and> steps_to_move (motors t 2) = 0)"
  by (simp add: on_block_begin_def y_axis_block_def trapezoid_block_def idle_state_def
        idle_motor_def turn_enable_pins_on_def trapezoid_generator_reset_def
        find_main_stepper_def move_def emit_def trapezoid_generator_tick_def
        synchronize_acceleration_def binary32_eval)

section \<open>Properties of StepTicker.cpp\<close>

subsection \<open>The active list\<close>

lemma record_hw_simps [simp]:
  "trace (record_hw e s) = trace s @ [e]"
  "stepper_motors (record_hw e s) = stepper_motors s"
  "active_motor_bm (record_hw e s) = active_motor_bm s"
  "period (record_hw e s) = period s"
  "last_duration (record_hw e s) = last_duration s"
  "reset_step_pins (record_hw e s) = reset_step_pins s"
  "moves_finished (record_hw e s) = moves_finished s"
  "MR0 (record_hw e s) = MR0 s"
  "MR1 (record_hw e s) = MR1 s"
  "MCR (record_hw e s) = MCR s"
  "TCR (record_hw e s) = TCR s"
  "IR (record_hw e s) = IR s"
  "motor_store (record_hw e s) = motor_store s"
  "past_the_end (record_hw e s) = past_the_end s"
  by (simp_all add: record_hw_def)

lemma read_slot_inside [simp]:
  "i < length (stepper_motors s) \<Longrightarrow> read_slot s i = stepper_motors s ! i"
  by (simp add: read_slot_def)

lemma read_slot_outside [simp]:
  "\<not> i < length (stepper_motors s) \<Longrightarrow> read_slot s i = past_the_end s i"
  by (simp add: read_slot_def)

lemma add_scan_miss:
  "\<forall>i \<in> set is. read_slot s i \<noteq> motor \<Longrightarrow> add_scan motor r is s = Inr s"
  by (induction "is") auto

lemma remove_scan_miss:
  "\<forall>i \<in> set is. read_slot s i \<noteq> motor \<Longrightarrow> remove_scan motor is s = Inr s"
  by (induction "is") auto

lemma add_scan_hit:
  assumes "\<forall>i \<in> set pre. i < length (stepper_motors s) \<and> stepper_motors s ! i \<noteq> motor"
    and "k < length (stepper_motors s)" and "stepper_motors s ! k = motor"
  shows "add_scan motor r (pre @ k # post) s =
           Inr (let s1 = s\<lparr>active_motor_bm := active_motor_bm s OR push_bit k 1\<rparr>
                in if r then write_TCR TCR_ENABLE
                               (write_TCR (TCR_ENABLE OR TCR_RESET)
                                  (write_MCR (MCR s1 AND NOT (MCR_MR1R OR MCR_MR1S)) s1))
                   else s1)"
  using assms by (induction pre) (auto simp: Let_def)

lemma remove_scan_hit:
  assumes "\<forall>i \<in> set pre. i < length (stepper_motors s) \<and> stepper_motors s ! i \<noteq> motor"
    and "k < length (stepper_motors s)" and "stepper_motors s ! k = motor"
  shows "remove_scan motor (pre @ k # post) s =
           Inr (let s1 = s\<lparr>active_motor_bm := active_motor_bm s AND NOT (push_bit k 1)\<rparr>
                in if active_motor_bm s1 = 0
                   then write_MCR (MCR s1 OR (MCR_MR1R OR MCR_MR1S)) s1 else s1)"
  using assms by (induction pre) (auto simp: Let_def)


lemma upt_split: "k < n \<Longrightarrow> [0..<n] = [0..<k] @ k # [Suc k..<n]"
  by (metis le_add1 le_add_same_cancel1 less_imp_add_positive upt_add_eq_append upt_conv_Cons)


lemma first_slot_props:
  "m \<in> set xs \<Longrightarrow>
     first_slot m xs < length xs \<and> xs ! first_slot m xs = m
     \<and> (\<forall>i < first_slot m xs. xs ! i \<noteq> m)"
proof (induction xs)
  case Nil
  then show ?case by simp
next
  case (Cons x xs)
  show ?case
  proof (cases "x = m")
    case True
    then show ?thesis by simp
  next
    case False
    with Cons have IH: "first_slot m xs < length xs" "xs ! first_slot m xs = m"
        "\<forall>i < first_slot m xs. xs ! i \<noteq> m"
      by auto
    show ?thesis
      using False IH by (auto simp: nth_Cons split: nat.splits)
  qed
qed

lemma first_slot_take:
  assumes "m \<in> set (take 12 (stepper_motors s))"
  shows "first_slot m (stepper_motors s) < 12"
    and "first_slot m (stepper_motors s) < length (stepper_motors s)"
    and "stepper_motors s ! first_slot m (stepper_motors s) = m"
    and "\<forall>i < first_slot m (stepper_motors s). stepper_motors s ! i \<noteq> m"
proof -
  from assms obtain j where j: "j < 12" "j < length (stepper_motors s)" "stepper_motors s ! j = m"
    by (auto simp: in_set_conv_nth)
  then have mem: "m \<in> set (stepper_motors s)" by auto
  note P = first_slot_props [OF mem]
  show "first_slot m (stepper_motors s) < length (stepper_motors s)" using P by simp
  show "stepper_motors s ! first_slot m (stepper_motors s) = m" using P by simp
  show "\<forall>i < first_slot m (stepper_motors s). stepper_motors s ! i \<noteq> m" using P by simp
  then have "\<not> j < first_slot m (stepper_motors s)" using j by auto
  then show "first_slot m (stepper_motors s) < 12" using j by simp
qed

lemma add_found:
  assumes "m \<in> set (take 12 (stepper_motors s))"
  shows "add_motor_to_active_list m s =
           Inr (let s1 = s\<lparr>active_motor_bm :=
                             active_motor_bm s OR push_bit (first_slot m (stepper_motors s)) 1\<rparr>
                in if active_motor_bm s = 0
                   then write_TCR TCR_ENABLE
                          (write_TCR (TCR_ENABLE OR TCR_RESET)
                             (write_MCR (MCR s1 AND NOT (MCR_MR1R OR MCR_MR1S)) s1))
                   else s1)"
proof -
  let ?k = "first_slot m (stepper_motors s)"
  note F = first_slot_take [OF assms]
  have split: "[0..<12] = [0..<?k] @ ?k # [Suc ?k..<12]"
    using F(1) by (rule upt_split)
  have pre: "\<forall>i \<in> set [0..<?k]. i < length (stepper_motors s) \<and> stepper_motors s ! i \<noteq> m"
    using F(2,4) by auto
  show ?thesis
    unfolding add_motor_to_active_list_def
    by (subst split) (rule add_scan_hit [OF pre F(2) F(3)])
qed

lemma remove_found:
  assumes "m \<in> set (take 12 (stepper_motors s))"
  shows "remove_motor_from_active_list m s =
           Inr (let s1 = s\<lparr>active_motor_bm :=
                             active_motor_bm s AND NOT (push_bit (first_slot m (stepper_motors s)) 1)\<rparr>
                in if active_motor_bm s1 = 0
                   then write_MCR (MCR s1 OR (MCR_MR1R OR MCR_MR1S)) s1 else s1)"
proof -
  let ?k = "first_slot m (stepper_motors s)"
  note F = first_slot_take [OF assms]
  have split: "[0..<12] = [0..<?k] @ ?k # [Suc ?k..<12]"
    using F(1) by (rule upt_split)
  have pre: "\<forall>i \<in> set [0..<?k]. i < length (stepper_motors s) \<and> stepper_motors s ! i \<noteq> m"
    using F(2,4) by auto
  show ?thesis
    unfolding remove_motor_from_active_list_def
    by (subst split) (rule remove_scan_hit [OF pre F(2) F(3)])
qed

lemma no_slot_equal:
  assumes "m \<notin> set (take 12 (stepper_motors s))"
    and "\<forall>i. length (stepper_motors s) \<le> i \<and> i < 12 \<longrightarrow> past_the_end s i \<noteq> m"
  shows "\<forall>i \<in> set [0..<12]. read_slot s i \<noteq> m"
proof
  fix i assume "i \<in> set [0..<12]"
  then have i: "i < 12" by simp
  show "read_slot s i \<noteq> m"
  proof (cases "i < length (stepper_motors s)")
    case True
    with i have "stepper_motors s ! i \<in> set (take 12 (stepper_motors s))"
      by (auto simp: in_set_conv_nth)
    with assms(1) True show ?thesis by auto
  next
    case False
    with i assms(2) show ?thesis by simp
  qed
qed

lemma not_found:
  assumes "m \<notin> set (take 12 (stepper_motors s))"
    and "\<forall>i. length (stepper_motors s) \<le> i \<and> i < 12 \<longrightarrow> past_the_end s i \<noteq> m"
  shows "add_motor_to_active_list m s = Inr s" and "remove_motor_from_active_list m s = Inr s"
  unfolding add_motor_to_active_list_def remove_motor_from_active_list_def
  using no_slot_equal [OF assms] by (simp_all only: add_scan_miss remove_scan_miss)

lemma not_found_long:
  assumes "m \<notin> set (take 12 (stepper_motors s))" and "12 \<le> length (stepper_motors s)"
  shows "add_motor_to_active_list m s = Inr s" and "remove_motor_from_active_list m s = Inr s"
  using assms by (simp_all add: not_found)

lemma registered_beyond_12:
  assumes "m \<in> set (stepper_motors s)" and "m \<notin> set (take 12 (stepper_motors s))"
  shows "12 \<le> length (stepper_motors s)"
proof (rule ccontr)
  assume "\<not> 12 \<le> length (stepper_motors s)"
  then have "take 12 (stepper_motors s) = stepper_motors s" by simp
  with assms show False by simp
qed

lemma slot_bit_nonzero: "k < 12 \<Longrightarrow> (w :: u32) OR push_bit k 1 \<noteq> 0"
proof
  assume k: "k < 12" and z: "w OR push_bit k 1 = 0"
  have "bit (w OR push_bit k 1) k"
    using k by (simp add: bit_simps)
  with z show False by simp
qed

lemma write_simps [simp]:
  "trace (write_MCR v s) = trace s @ [WriteMCR v]"
  "trace (write_TCR v s) = trace s @ [WriteTCR v]"
  "trace (write_MR0 v s) = trace s @ [WriteMR0 v]"
  "trace (write_IR v s) = trace s @ [WriteIR v]"
  "MCR (write_MCR v s) = v" "MCR (write_TCR v s) = MCR s"
  "MCR (write_MR0 v s) = MCR s" "MCR (write_IR v s) = MCR s"
  "TCR (write_MCR v s) = TCR s" "TCR (write_TCR v s) = v"
  "TCR (write_MR0 v s) = TCR s" "TCR (write_IR v s) = TCR s"
  "MR0 (write_MCR v s) = MR0 s" "MR0 (write_TCR v s) = MR0 s"
  "MR0 (write_MR0 v s) = v" "MR0 (write_IR v s) = MR0 s"
  "IR (write_MCR v s) = IR s" "IR (write_TCR v s) = IR s"
  "IR (write_MR0 v s) = IR s" "IR (write_IR v s) = IR s AND NOT v"
  by (simp_all add: write_MCR_def write_TCR_def write_MR0_def write_IR_def)

lemma write_frame [simp]:
  "stepper_motors (write_MCR v s) = stepper_motors s"
  "stepper_motors (write_TCR v s) = stepper_motors s"
  "stepper_motors (write_MR0 v s) = stepper_motors s"
  "stepper_motors (write_IR v s) = stepper_motors s"
  "active_motor_bm (write_MCR v s) = active_motor_bm s"
  "active_motor_bm (write_TCR v s) = active_motor_bm s"
  "active_motor_bm (write_MR0 v s) = active_motor_bm s"
  "active_motor_bm (write_IR v s) = active_motor_bm s"
  "motor_store (write_MCR v s) = motor_store s"
  "motor_store (write_TCR v s) = motor_store s"
  "motor_store (write_MR0 v s) = motor_store s"
  "motor_store (write_IR v s) = motor_store s"
  "period (write_MCR v s) = period s"
  "period (write_TCR v s) = period s"
  "period (write_MR0 v s) = period s"
  "period (write_IR v s) = period s"
  by (simp_all add: write_MCR_def write_TCR_def write_MR0_def write_IR_def)

lemma slots_12: "[0..<12] = [0, 1, 2, 3, 4, 5, 6, 7, 8, 9, 10, 11]"
  by code_simp

lemma slot_bit_nonzero': "k < 12 \<Longrightarrow> (w :: u32) OR 2 ^ k \<noteq> 0"
  using slot_bit_nonzero [of k w] by simp

lemma stop_mask:
  fixes M x :: u32
  shows "(x AND NOT M) AND M = 0" and "M \<noteq> 0 \<Longrightarrow> (x OR M) AND M \<noteq> 0"
proof -
  show "(x AND NOT M) AND M = 0"
    by (rule bit_eqI) (auto simp: bit_simps)
  have "(x OR M) AND M = M"
    by (rule bit_eqI) (auto simp: bit_simps)
  then show "M \<noteq> 0 \<Longrightarrow> (x OR M) AND M \<noteq> 0" by simp
qed

lemma stop_bits_nonzero: "MCR_MR1R OR MCR_MR1S \<noteq> 0"
proof
  assume z: "MCR_MR1R OR MCR_MR1S = 0"
  have "bit (MCR_MR1R OR MCR_MR1S) 4"
    by (simp add: bit_simps MCR_MR1R_def)
  with z show False by simp
qed

lemma add_step:
  assumes "m \<in> set (stepper_motors s)"
  shows "\<exists>s'. add_motor_to_active_list m s = Inr s'
           \<and> stepper_motors s' = stepper_motors s
           \<and> drop (length (trace s)) (trace s') =
               (if active_motor_bm s = 0 \<and> active_motor_bm s' \<noteq> 0
                then [WriteMCR (MCR s AND NOT (MCR_MR1R OR MCR_MR1S)),
                      WriteTCR (TCR_ENABLE OR TCR_RESET), WriteTCR TCR_ENABLE]
                else [])
           \<and> (armed_iff_active s \<longrightarrow> armed_iff_active s')"
proof (cases "m \<in> set (take 12 (stepper_motors s))")
  case True
  note k = first_slot_take(1) [OF True]
  define M where "M = MCR_MR1R OR MCR_MR1S"
  have en: "TCR_ENABLE \<noteq> 0" by (simp add: TCR_ENABLE_def)
  show ?thesis
    unfolding add_found [OF True] armed_iff_active_def timer_armed_def M_def [symmetric]
    using k by (simp add: Let_def slot_bit_nonzero' [OF k] stop_mask en)
next
  case False
  then have "add_motor_to_active_list m s = Inr s"
    using not_found_long(1) registered_beyond_12 assms by blast
  then show ?thesis by simp
qed

lemma remove_step:
  assumes "m \<in> set (stepper_motors s)"
  shows "\<exists>s'. remove_motor_from_active_list m s = Inr s'
           \<and> stepper_motors s' = stepper_motors s
           \<and> drop (length (trace s)) (trace s') =
               (if m \<in> set (take 12 (stepper_motors s)) \<and> active_motor_bm s' = 0
                then [WriteMCR (MCR s OR (MCR_MR1R OR MCR_MR1S))]
                else [])
           \<and> (armed_iff_active s \<longrightarrow> armed_iff_active s')"
proof (cases "m \<in> set (take 12 (stepper_motors s))")
  case True
  define M where "M = MCR_MR1R OR MCR_MR1S"
  have M: "M \<noteq> 0" unfolding M_def by (rule stop_bits_nonzero)
  have keep: "active_motor_bm s AND w \<noteq> 0 \<Longrightarrow> active_motor_bm s \<noteq> 0" for w
    by auto
  show ?thesis
    unfolding remove_found [OF True] armed_iff_active_def timer_armed_def M_def [symmetric]
    using True keep M
    by (auto simp add: Let_def stop_mask(2) [OF M])
next
  case False
  then have "remove_motor_from_active_list m s = Inr s"
    using not_found_long(2) registered_beyond_12 assms by blast
  with False show ?thesis by simp
qed

lemma run_calls_armed:
  assumes "\<forall>c \<in> set cs. call_motor c \<in> set (stepper_motors s)" and "armed_iff_active s"
  shows "\<exists>s'. run_calls cs s = Inr s' \<and> stepper_motors s' = stepper_motors s
           \<and> armed_iff_active s'"
  using assms
proof (induction cs arbitrary: s)
  case Nil
  then show ?case by simp
next
  case (Cons c cs)
  then have reg: "call_motor c \<in> set (stepper_motors s)" by simp
  have "\<exists>t. do_call c s = Inr t \<and> stepper_motors t = stepper_motors s \<and> armed_iff_active t"
  proof (cases c)
    case (AddMotor m)
    with reg add_step [of m s] Cons.prems(2) show ?thesis by auto
  next
    case (RemoveMotor m)
    with reg remove_step [of m s] Cons.prems(2) show ?thesis by auto
  qed
  then obtain t where t: "do_call c s = Inr t" "stepper_motors t = stepper_motors s"
      "armed_iff_active t"
    by blast
  have "\<forall>c \<in> set cs. call_motor c \<in> set (stepper_motors t)"
    using Cons.prems(1) t(2) by simp
  from Cons.IH [OF this t(3)] t show ?case by auto
qed

text \<open>
  C9, as the code has it.  For a registered motor both calls return.
  \<open>add_motor_to_active_list\<close> clears MR1's reset and stop bits and writes the timer
  control register twice (enable with reset, then enable) exactly when
  \<open>active_motor_bm\<close> goes from zero to non-zero, and writes nothing otherwise.
  \<open>remove_motor_from_active_list\<close> sets MR1's reset and stop bits exactly when the motor
  is found in the first twelve slots and \<open>active_motor_bm\<close> is zero afterwards, whether
  or not it was zero before, and writes nothing otherwise.  Over every sequence of such
  calls on registered motors, "the timer is armed iff some motor is active" is kept.
\<close>

theorem active_list_timer_control:
  "(m \<in> set (stepper_motors s) \<longrightarrow>
      (case add_motor_to_active_list m s of
         Inl e \<Rightarrow> False
       | Inr s' \<Rightarrow>
           drop (length (trace s)) (trace s') =
             (if active_motor_bm s = 0 \<and> active_motor_bm s' \<noteq> 0
              then [WriteMCR (MCR s AND NOT (MCR_MR1R OR MCR_MR1S)),
                    WriteTCR (TCR_ENABLE OR TCR_RESET), WriteTCR TCR_ENABLE]
              else [])) \<and>
      (case remove_motor_from_active_list m s of
         Inl e \<Rightarrow> False
       | Inr s' \<Rightarrow>
           drop (length (trace s)) (trace s') =
             (if m \<in> set (take 12 (stepper_motors s)) \<and> active_motor_bm s' = 0
              then [WriteMCR (MCR s OR (MCR_MR1R OR MCR_MR1S))]
              else [])))
   \<and> ((\<forall>c \<in> set cs. call_motor c \<in> set (stepper_motors s)) \<and> armed_iff_active s \<longrightarrow>
        (case run_calls cs s of Inl e \<Rightarrow> False | Inr s' \<Rightarrow> armed_iff_active s'))"
proof -
  have A: "m \<in> set (stepper_motors s) \<Longrightarrow>
      (case add_motor_to_active_list m s of
         Inl e \<Rightarrow> False
       | Inr s' \<Rightarrow>
           drop (length (trace s)) (trace s') =
             (if active_motor_bm s = 0 \<and> active_motor_bm s' \<noteq> 0
              then [WriteMCR (MCR s AND NOT (MCR_MR1R OR MCR_MR1S)),
                    WriteTCR (TCR_ENABLE OR TCR_RESET), WriteTCR TCR_ENABLE]
              else []))"
    using add_step [of m s] by auto
  have R: "m \<in> set (stepper_motors s) \<Longrightarrow>
      (case remove_motor_from_active_list m s of
         Inl e \<Rightarrow> False
       | Inr s' \<Rightarrow>
           drop (length (trace s)) (trace s') =
             (if m \<in> set (take 12 (stepper_motors s)) \<and> active_motor_bm s' = 0
              then [WriteMCR (MCR s OR (MCR_MR1R OR MCR_MR1S))]
              else []))"
    using remove_step [of m s] by auto
  have S: "(\<forall>c \<in> set cs. call_motor c \<in> set (stepper_motors s)) \<and> armed_iff_active s \<Longrightarrow>
        (case run_calls cs s of Inl e \<Rightarrow> False | Inr s' \<Rightarrow> armed_iff_active s')"
    using run_calls_armed [of cs s] by auto
  from A R S show ?thesis by blast
qed

theorem active_list_timer_control_witness:
  "(case add_motor_to_active_list 7 boot_ticker of
      Inl e \<Rightarrow> False
    | Inr s' \<Rightarrow> trace s' = [WriteMCR 3, WriteTCR 3, WriteTCR 1] \<and> active_motor_bm s' = 1)
   \<and> (case run_calls [AddMotor 7, AddMotor 8, RemoveMotor 7, RemoveMotor 8] boot_ticker of
         Inl e \<Rightarrow> False
       | Inr s' \<Rightarrow> armed_iff_active s' \<and> active_motor_bm s' = 0
                  \<and> trace s' = [WriteMCR 3, WriteTCR 3, WriteTCR 1, WriteMCR 51])"
proof -
  let ?cs = "[AddMotor 7, AddMotor 8, RemoveMotor 7, RemoveMotor 8]"
  have reg: "7 \<in> set (stepper_motors boot_ticker)"
    "\<forall>c \<in> set ?cs. call_motor c \<in> set (stepper_motors boot_ticker)"
    by (simp_all add: boot_ticker_def)
  have start: "armed_iff_active boot_ticker"
    by (simp add: armed_iff_active_def timer_armed_def boot_ticker_def)
  note T = active_list_timer_control [where m = 7 and s = boot_ticker and cs = ?cs]
  from T reg start have kept:
    "case run_calls ?cs boot_ticker of Inl e \<Rightarrow> False | Inr s' \<Rightarrow> armed_iff_active s'"
    by blast
  have run: "case run_calls ?cs boot_ticker of
               Inl e \<Rightarrow> False
             | Inr s' \<Rightarrow> active_motor_bm s' = 0
                        \<and> trace s' = [WriteMCR 3, WriteTCR 3, WriteTCR 1, WriteMCR 51]"
    by (simp add: boot_ticker_def add_motor_to_active_list_def
          remove_motor_from_active_list_def slots_12 write_MCR_def write_TCR_def record_hw_def
          MCR_MR0I_def MCR_MR0R_def MCR_MR1R_def MCR_MR1S_def TCR_ENABLE_def TCR_RESET_def
          Let_def)
  have add: "case add_motor_to_active_list 7 boot_ticker of
      Inl e \<Rightarrow> False
    | Inr s' \<Rightarrow> trace s' = [WriteMCR 3, WriteTCR 3, WriteTCR 1] \<and> active_motor_bm s' = 1"
    by (simp add: boot_ticker_def add_motor_to_active_list_def slots_12 write_MCR_def
          write_TCR_def record_hw_def MCR_MR0I_def MCR_MR0R_def MCR_MR1R_def MCR_MR1S_def
          TCR_ENABLE_def TCR_RESET_def Let_def)
  from kept run add show ?thesis
    by (auto split: sum.splits)
qed

text \<open>
  C9, as the specification words it, fails: with no motor active, removing a registered
  motor sets MR1's reset and stop bits although \<open>active_motor_bm\<close> makes no transition.
\<close>

theorem active_list_timer_control_counterexample:
  "7 \<in> set (stepper_motors boot_ticker)
   \<and> active_motor_bm boot_ticker = 0
   \<and> remove_motor_from_active_list 7 boot_ticker =
       Inr (boot_ticker\<lparr>MCR := 51, trace := [WriteMCR 51]\<rparr>)"
  by (simp add: boot_ticker_def remove_motor_from_active_list_def slots_12
        write_MCR_def record_hw_def MCR_MR0I_def MCR_MR0R_def MCR_MR1R_def MCR_MR1S_def Let_def)

lemma registered_not_found:
  assumes "m \<in> set (stepper_motors s)" and "m \<notin> set (take 12 (stepper_motors s))"
  shows "add_motor_to_active_list m s = Inr s" and "remove_motor_from_active_list m s = Inr s"
  using not_found_long [OF assms(2) registered_beyond_12 [OF assms]] by simp_all

text \<open>
  C10.  Called with a motor that does not occur in the first 12 slots of
  \<open>stepper_motors\<close>, \<open>add_motor_to_active_list\<close> and
  \<open>remove_motor_from_active_list\<close> return with the state as it was:
  \<open>active_motor_bm\<close> and the timer registers keep their values and no register is
  written.  When fewer than 12 motors are registered the scans also read the slots
  between the end of the list and slot 11, and the second hypothesis says of them what
  the first says of the list: none compares equal to the motor.  It is void for a list of
  12 motors or more, and so for every registered motor, which is outside the first 12
  slots only in a list of at least 13 (\<open>registered_not_found\<close>).
\<close>

theorem unlisted_motor_is_noop:
  assumes "motor \<notin> set (take 12 (stepper_motors s))"
    and "\<forall>i. length (stepper_motors s) \<le> i \<and> i < 12 \<longrightarrow> past_the_end s i \<noteq> motor"
  shows "add_motor_to_active_list motor s = Inr s
         \<and> remove_motor_from_active_list motor s = Inr s"
  using not_found [OF assms] by simp

text \<open>
  Motor 4 is not registered on the three-motor ticker; motor 32 is registered in slot 12
  of the ticker with thirteen motors.
\<close>

theorem unlisted_motor_is_noop_witness:
  "4 \<notin> set (take 12 (stepper_motors boot_ticker))
   \<and> add_motor_to_active_list 4 boot_ticker = Inr boot_ticker
   \<and> remove_motor_from_active_list 4 boot_ticker = Inr boot_ticker
   \<and> 32 \<in> set (stepper_motors crowded_ticker)
   \<and> 32 \<notin> set (take 12 (stepper_motors crowded_ticker))
   \<and> add_motor_to_active_list 32 crowded_ticker = Inr crowded_ticker
   \<and> remove_motor_from_active_list 32 crowded_ticker = Inr crowded_ticker"
  using unlisted_motor_is_noop [of 4 boot_ticker] unlisted_motor_is_noop [of 32 crowded_ticker]
  by (simp add: boot_ticker_def crowded_ticker_def)

subsection \<open>The overrun catch-up\<close>

lemma min_slots_fold:
  assumes "\<forall>i \<in> set is. slot_active s i \<longrightarrow> i < length (stepper_motors s)"
  shows "min_slots is s acc = Inr (fold (\<lambda>i a. min a (skip_room s i)) (filter (slot_active s) is) acc)"
  using assms by (induction "is" arbitrary: acc) (auto simp: slot_active_def skip_room_def Let_def)

lemma fold_min_Min:
  "fold (\<lambda>i a. min a (f i)) xs (acc :: u32) = Min (insert acc (f ` set xs))"
proof (induction xs arbitrary: acc)
  case Nil
  show ?case by simp
next
  case (Cons x xs)
  have "Min (insert (min acc (f x)) (f ` set xs)) = Min (insert acc (insert (f x) (f ` set xs)))"
    by (cases "set xs = {}") (simp_all add: min.assoc)
  with Cons show ?case by simp
qed

lemma advance_frame [simp]:
  "active_motor_bm (advance_counter n p s) = active_motor_bm s"
  "stepper_motors (advance_counter n p s) = stepper_motors s"
  "period (advance_counter n p s) = period s"
  "last_duration (advance_counter n p s) = last_duration s"
  "MR0 (advance_counter n p s) = MR0 s"
  "MCR (advance_counter n p s) = MCR s"
  "trace (advance_counter n p s) = trace s"
  "slot_active (advance_counter n p s) = slot_active s"
  by (simp_all add: advance_counter_def slot_active_def fun_eq_iff)

lemma for_slots_advance:
  assumes "\<forall>i \<in> set is. slot_active s i \<longrightarrow> i < length (stepper_motors s)"
    and "distinct (map (\<lambda>i. stepper_motors s ! i) (filter (slot_active s) is))"
  shows "for_slots (advance_counter n) is s =
           Inr (s\<lparr>motor_store := (\<lambda>p. if p \<in> (\<lambda>i. stepper_motors s ! i) ` set (filter (slot_active s) is)
                                      then advanced n (motor_store s p) else motor_store s p)\<rparr>)"
  using assms
proof (induction "is" arbitrary: s)
  case Nil
  show ?case by simp
next
  case (Cons i "is")
  show ?case
  proof (cases "slot_active s i")
    case False
    with Cons show ?thesis by (simp add: slot_active_def)
  next
    case True
    let ?p = "stepper_motors s ! i"
    let ?s1 = "advance_counter n ?p s"
    from True Cons.prems have i: "i < length (stepper_motors s)"
      and notin: "?p \<notin> (\<lambda>i. stepper_motors s ! i) ` set (filter (slot_active s) is)"
      and dist: "distinct (map (\<lambda>i. stepper_motors s ! i) (filter (slot_active s) is))"
      by auto
    let ?A = "(\<lambda>i. stepper_motors s ! i) ` set (filter (slot_active s) is)"
    have pre1: "\<forall>i \<in> set is. slot_active ?s1 i \<longrightarrow> i < length (stepper_motors ?s1)"
      using Cons.prems(1) by simp
    have pre2: "distinct (map (\<lambda>i. stepper_motors ?s1 ! i) (filter (slot_active ?s1) is))"
      using dist by simp
    have IH: "for_slots (advance_counter n) is ?s1 =
           Inr (?s1\<lparr>motor_store := (\<lambda>p. if p \<in> ?A
                                      then advanced n (motor_store ?s1 p) else motor_store ?s1 p)\<rparr>)"
      using Cons.IH [OF pre1 pre2] by simp
    have store1: "motor_store ?s1 = (motor_store s)(?p := advanced n (motor_store s ?p))"
      by (simp add: advance_counter_def advanced_def)
    have over: "?s1\<lparr>motor_store := G\<rparr> = s\<lparr>motor_store := G\<rparr>" for G
      by (simp add: advance_counter_def)
    have fn: "(\<lambda>p. if p \<in> ?A then advanced n (motor_store ?s1 p) else motor_store ?s1 p)
              = (\<lambda>p. if p \<in> (\<lambda>i. stepper_motors s ! i) ` set (filter (slot_active s) (i # is))
                     then advanced n (motor_store s p) else motor_store s p)"
      using True notin by (auto simp: store1 fun_eq_iff)
    have "for_slots (advance_counter n) (i # is) s = for_slots (advance_counter n) is ?s1"
      using True i by (simp add: slot_active_def)
    also note IH
    finally show ?thesis
      by (simp only: over fn)
  qed
qed

lemma unat_room:
  fixes d :: u64
  shows "unat (ucast (drop_bit 32 d) :: u32) = unat d div 2 ^ 32"
proof -
  have lt: "unat d < 2 ^ 64" using unsigned_less [of d] by simp
  have a: "unat (drop_bit 32 d) = unat d div 2 ^ 32"
    by (simp only: unat_drop_bit_eq) (simp only: drop_bit_eq_div)
  have b: "unat d div 2 ^ 32 < (2 :: nat) ^ 32"
    using lt by (simp add: less_mult_imp_div_less)
  have "unat (ucast (drop_bit 32 d) :: u32) = take_bit 32 (unat (drop_bit 32 d))"
    by (simp only: unsigned_ucast_eq) simp
  also have "\<dots> = unat d div 2 ^ 32"
    unfolding a using b by (simp only: take_bit_nat_eq_self_iff)
  finally show ?thesis .
qed

lemma unat_ticks:
  fixes n :: u32
  shows "unat (push_bit 32 (ucast n :: u64)) = unat n * 2 ^ 32"
proof -
  have lt: "unat n < 2 ^ 32" using unsigned_less [of n] by simp
  have lt64: "unat n < 2 ^ 64" using lt by simp
  have "unat (ucast n :: u64) = take_bit 64 (unat n)"
    by (simp only: unsigned_ucast_eq) simp
  then have u: "unat (ucast n :: u64) = unat n"
    using lt64 by (simp only: take_bit_nat_eq_self_iff)
  have small: "unat n * 2 ^ 32 < (2 :: nat) ^ 64"
    using lt by simp
  have "unat (push_bit 32 (ucast n :: u64)) = take_bit 64 (push_bit 32 (unat (ucast n :: u64)))"
    by (simp only: unsigned_push_bit_eq) simp
  also have "\<dots> = take_bit 64 (unat n * 2 ^ 32)"
    by (simp only: u push_bit_eq_mult)
  also have "\<dots> = unat n * 2 ^ 32"
    using small by (simp only: take_bit_nat_eq_self_iff)
  finally show ?thesis .
qed

lemma no_overshoot:
  fixes ctr tps :: u64 and n :: u32
  assumes le: "ctr \<le> tps" and n: "n \<le> ucast (drop_bit 32 (tps - ctr))"
  shows "ctr + push_bit 32 (ucast n) \<le> tps"
proof -
  have d: "unat (tps - ctr) = unat tps - unat ctr"
    using le by (simp add: unat_sub)
  have c: "unat ctr \<le> unat tps" using le by (simp add: word_le_nat_alt)
  have "unat n \<le> unat (tps - ctr) div 2 ^ 32"
    using n by (simp add: word_le_nat_alt unat_room)
  then have "unat n * 2 ^ 32 \<le> unat (tps - ctr)"
    by (metis div_times_less_eq_dividend le_trans mult_le_mono1)
  then have sum: "unat ctr + unat (push_bit 32 (ucast n :: u64)) \<le> unat tps"
    using d c by (simp add: unat_ticks)
  have "unat tps < 2 ^ 64" using unsigned_less [of tps] by simp
  with sum have "unat ctr + unat (push_bit 32 (ucast n :: u64)) < 2 ^ LENGTH(64)"
    by simp
  then have "unat (ctr + push_bit 32 (ucast n)) = unat ctr + unat (push_bit 32 (ucast n :: u64))"
    by (simp only: unat_add_lem)
  with sum show ?thesis by (simp add: word_le_nat_alt)
qed

lemma counter_past_tc:
  fixes tc last p :: u32
  assumes p: "p \<noteq> 0" and room: "unat tc + unat last + unat p < 2 ^ 32"
  shows "tc < ((tc + last) div p + 1) * p"
proof -
  have s: "unat (tc + last) = unat tc + unat last"
    using room by (simp add: unat_add_lem [THEN iffD1])
  have q: "unat ((tc + last) div p) = (unat tc + unat last) div unat p"
    by (simp add: unat_div s)
  have p0: "0 < unat p" using p by (simp add: unat_gt_0)
  have qle: "(unat tc + unat last) div unat p * unat p \<le> unat tc + unat last"
    by simp
  have q1: "unat ((tc + last) div p + 1) = (unat tc + unat last) div unat p + 1"
  proof -
    have "unat tc + unat last < 4294967295"
      using room p0 by simp
    with div_le_dividend have "(unat tc + unat last) div unat p < 4294967295"
      by (rule le_less_trans)
    then have "unat ((tc + last) div p) + unat (1 :: u32) < 2 ^ LENGTH(32)"
      using q by simp
    then show ?thesis using q by (simp add: unat_add_lem [THEN iffD1])
  qed
  have prod: "((unat tc + unat last) div unat p + 1) * unat p \<le> unat tc + unat last + unat p"
    using qle by (simp add: algebra_simps)
  have "((unat tc + unat last) div unat p + 1) * unat p < 2 ^ 32"
    using prod room by (rule le_less_trans)
  then have "unat ((tc + last) div p + 1) * unat p < 2 ^ LENGTH(32)"
    unfolding q1 by simp
  then have m: "unat (((tc + last) div p + 1) * p) = ((unat tc + unat last) div unat p + 1) * unat p"
    using q1 by (simp add: unat_mult_lem [THEN iffD1])
  have "unat tc + unat last < ((unat tc + unat last) div unat p + 1) * unat p"
    using p0 by (metis Suc_eq_plus1 dividend_less_div_times mult.commute mult_Suc)
  then show ?thesis
    by (simp add: word_less_nat_alt m)
qed

lemma slot_active_bit: "slot_active s i \<longleftrightarrow> bit (active_motor_bm s) i"
  by (simp add: slot_active_def bit_iff_and_push_bit_not_eq_0)

lemma active_slots_set: "set (active_slots s) = {i. i < 12 \<and> slot_active s i}"
  by (auto simp: active_slots_def)

lemma ticker_inv_alt:
  "ticker_inv s \<longleftrightarrow>
     (\<forall>i < 12. slot_active s i \<longrightarrow>
        i < length (stepper_motors s) \<and> first_slot (stepper_motors s ! i) (stepper_motors s) = i)"
  by (auto simp: ticker_inv_def list_all_iff active_slots_set)

lemma inv_in_range:
  "ticker_inv s \<Longrightarrow> \<forall>i \<in> set [0..<12]. slot_active s i \<longrightarrow> i < length (stepper_motors s)"
  by (simp add: ticker_inv_alt)

lemma inv_distinct:
  assumes "ticker_inv s"
  shows "distinct (active_ptrs s)"
proof -
  have "inj_on (\<lambda>i. stepper_motors s ! i) (set (active_slots s))"
  proof (rule inj_onI)
    fix i j assume i: "i \<in> set (active_slots s)" and j: "j \<in> set (active_slots s)"
      and eq: "stepper_motors s ! i = stepper_motors s ! j"
    from assms i have "first_slot (stepper_motors s ! i) (stepper_motors s) = i"
      by (simp add: ticker_inv_def list_all_iff)
    moreover from assms j have "first_slot (stepper_motors s ! j) (stepper_motors s) = j"
      by (simp add: ticker_inv_def list_all_iff)
    ultimately show "i = j" using eq by metis
  qed
  moreover have "distinct (active_slots s)" by (simp add: active_slots_def)
  ultimately show ?thesis by (simp add: active_ptrs_def distinct_map)
qed

lemma mr0_past_tc_exit:
  "mr0_past_tc tcs s = Inr s' \<Longrightarrow>
     motor_store s' = motor_store s \<and> active_motor_bm s' = active_motor_bm s
     \<and> (\<exists>k < length tcs. MR0 s' = MR0 s + of_nat k * period s \<and> \<not> tcs ! k > MR0 s'
            \<and> (\<forall>j < k. tcs ! j > MR0 s + of_nat j * period s))"
proof (induction tcs arbitrary: s)
  case Nil
  then show ?case by simp
next
  case (Cons tc tcs)
  show ?case
  proof (cases "tc > MR0 s")
    case False
    with Cons.prems have "s' = s" by simp
    with False show ?thesis by (auto intro!: exI [of _ 0])
  next
    case True
    let ?s1 = "write_MR0 (MR0 s + period s) s"
    from True Cons.prems have "mr0_past_tc tcs ?s1 = Inr s'" by simp
    from Cons.IH [OF this] obtain k where k: "k < length tcs"
        "MR0 s' = (MR0 s + period s) + of_nat k * period s" "\<not> tcs ! k > MR0 s'"
        "\<forall>j < k. tcs ! j > (MR0 s + period s) + of_nat j * period s"
      and fr: "motor_store s' = motor_store s" "active_motor_bm s' = active_motor_bm s"
      by auto
    have step: "(MR0 s + period s) + of_nat j * period s = MR0 s + of_nat (Suc j) * period s"
      for j
      by (simp add: algebra_simps)
    have "\<forall>j < Suc k. (tc # tcs) ! j > MR0 s + of_nat j * period s"
    proof (intro allI impI)
      fix j assume j: "j < Suc k"
      show "(tc # tcs) ! j > MR0 s + of_nat j * period s"
      proof (cases j)
        case 0
        with True show ?thesis by simp
      next
        case (Suc j')
        with j have "tcs ! j' > (MR0 s + period s) + of_nat j' * period s"
          using k(4) by simp
        then show ?thesis
          unfolding Suc step by simp
      qed
    qed
    moreover have "MR0 s' = MR0 s + of_nat (Suc k) * period s"
      using k(2) unfolding step .
    ultimately show ?thesis
      using k(1,3) fr by (intro conjI exI [of _ "Suc k"]) auto
  qed
qed

lemma mr0_past_tc_returns:
  "k < length tcs \<Longrightarrow> \<not> tcs ! k > MR0 s + of_nat k * period s \<Longrightarrow>
     \<exists>s'. mr0_past_tc tcs s = Inr s'"
proof (induction tcs arbitrary: s k)
  case Nil
  then show ?case by simp
next
  case (Cons tc tcs)
  show ?case
  proof (cases "tc > MR0 s")
    case False
    then show ?thesis by simp
  next
    case True
    with Cons.prems obtain k' where k': "k = Suc k'" by (cases k) auto
    let ?s1 = "write_MR0 (MR0 s + period s) s"
    have "\<not> tcs ! k' > MR0 ?s1 + of_nat k' * period ?s1"
      using Cons.prems(2) k' by (simp add: algebra_simps)
    moreover have "k' < length tcs" using Cons.prems(1) k' by simp
    ultimately have "\<exists>s'. mr0_past_tc tcs ?s1 = Inr s'" by (rule Cons.IH [rotated])
    with True show ?thesis by simp
  qed
qed

lemma catch_up_result:
  assumes inv: "ticker_inv s" and p: "period s \<noteq> 0"
  shows "overrun_catch_up start_tc tc end_tc s =
     Inr (let tts = (tc + last_duration s) div period s;
              n = Min (insert tts (skip_room s ` set (active_slots s)));
              s2 = write_MR0 ((tts + 1) * period s)
                     (s\<lparr>motor_store := (\<lambda>p. if p \<in> set (active_ptrs s)
                                             then advanced n (motor_store s p)
                                             else motor_store s p)\<rparr>)
          in if 0 <s end_tc - start_tc then s2\<lparr>last_duration := end_tc - start_tc\<rparr> else s2)"
proof -
  let ?tts = "(tc + last_duration s) div period s"
  let ?n = "Min (insert ?tts (skip_room s ` set (active_slots s)))"
  have m: "min_slots [0..<12] s ?tts = Inr ?n"
    unfolding min_slots_fold [OF inv_in_range [OF inv]] fold_min_Min active_slots_def ..
  have d: "distinct (map (\<lambda>i. stepper_motors s ! i) (filter (slot_active s) [0..<12]))"
    using inv_distinct [OF inv] by (simp add: active_ptrs_def active_slots_def)
  have a: "for_slots (advance_counter ?n) [0..<12] s =
             Inr (s\<lparr>motor_store := (\<lambda>p. if p \<in> set (active_ptrs s)
                                         then advanced ?n (motor_store s p)
                                         else motor_store s p)\<rparr>)"
    unfolding for_slots_advance [OF inv_in_range [OF inv] d]
    by (simp add: active_ptrs_def active_slots_def)
  show ?thesis
    unfolding overrun_catch_up_def using p by (simp add: m a Let_def)
qed

lemma add_result_fields:
  assumes "m \<in> set (take 12 (stepper_motors s))" and "add_motor_to_active_list m s = Inr s'"
  shows "stepper_motors s' = stepper_motors s"
    and "active_motor_bm s' = active_motor_bm s OR push_bit (first_slot m (stepper_motors s)) 1"
  using assms(2) unfolding add_found [OF assms(1)] by (auto simp: Let_def split: if_splits)

lemma remove_result_fields:
  assumes "m \<in> set (take 12 (stepper_motors s))" and "remove_motor_from_active_list m s = Inr s'"
  shows "stepper_motors s' = stepper_motors s"
    and "active_motor_bm s' =
           active_motor_bm s AND NOT (push_bit (first_slot m (stepper_motors s)) 1)"
  using assms(2) unfolding remove_found [OF assms(1)] by (auto simp: Let_def split: if_splits)

lemma not_found_result:
  assumes "m \<in> set (stepper_motors s)" and "m \<notin> set (take 12 (stepper_motors s))"
  shows "add_motor_to_active_list m s = Inr s' \<Longrightarrow> s' = s"
    and "remove_motor_from_active_list m s = Inr s' \<Longrightarrow> s' = s"
  using not_found_long [OF assms(2) registered_beyond_12 [OF assms]] by simp_all

lemma ticker_inv_boot: "ticker_inv boot_ticker"
  by (simp add: ticker_inv_def active_slots_def slot_active_def boot_ticker_def)

lemma add_keeps_inv:
  assumes inv: "ticker_inv s" and reg: "m \<in> set (stepper_motors s)"
    and res: "add_motor_to_active_list m s = Inr s'"
  shows "ticker_inv s'"
proof (cases "m \<in> set (take 12 (stepper_motors s))")
  case False
  from not_found_result(1) [OF reg False res] inv show ?thesis by simp
next
  case True
  note F = first_slot_take [OF True]
  note R = add_result_fields [OF True res]
  show ?thesis
    unfolding ticker_inv_alt
  proof (intro allI impI)
    fix i assume i: "i < 12" and act: "slot_active s' i"
    from act have "slot_active s i \<or> i = first_slot m (stepper_motors s)"
      by (auto simp: slot_active_bit R(2) bit_simps)
    then show "i < length (stepper_motors s')
                 \<and> first_slot (stepper_motors s' ! i) (stepper_motors s') = i"
    proof
      assume "slot_active s i"
      with inv i show ?thesis by (simp add: ticker_inv_alt R(1))
    next
      assume "i = first_slot m (stepper_motors s)"
      with F show ?thesis by (simp add: R(1))
    qed
  qed
qed

lemma remove_keeps_inv:
  assumes inv: "ticker_inv s" and reg: "m \<in> set (stepper_motors s)"
    and res: "remove_motor_from_active_list m s = Inr s'"
  shows "ticker_inv s'"
proof (cases "m \<in> set (take 12 (stepper_motors s))")
  case False
  from not_found_result(2) [OF reg False res] inv show ?thesis by simp
next
  case True
  note R = remove_result_fields [OF True res]
  show ?thesis
    unfolding ticker_inv_alt
  proof (intro allI impI)
    fix i assume i: "i < 12" and act: "slot_active s' i"
    from act have "slot_active s i"
      by (auto simp: slot_active_bit R(2) bit_simps)
    with inv i show "i < length (stepper_motors s')
                 \<and> first_slot (stepper_motors s' ! i) (stepper_motors s') = i"
      by (simp add: ticker_inv_alt R(1))
  qed
qed

lemma first_slot_append:
  "m \<in> set xs \<Longrightarrow> first_slot m (xs @ ys) = first_slot m xs"
  by (induction xs) auto

lemma add_stepper_motor_keeps_inv:
  assumes inv: "ticker_inv s"
  shows "ticker_inv (add_stepper_motor m s)"
  unfolding ticker_inv_alt
proof (intro allI impI)
  fix i assume i: "i < 12" and act: "slot_active (add_stepper_motor m s) i"
  from act have "slot_active s i"
    by (simp add: slot_active_def add_stepper_motor_def)
  with inv i have r: "i < length (stepper_motors s)"
      and f: "first_slot (stepper_motors s ! i) (stepper_motors s) = i"
    by (simp_all add: ticker_inv_alt)
  from r have "stepper_motors s ! i \<in> set (stepper_motors s)" by simp
  from first_slot_append [OF this] r f
  show "i < length (stepper_motors (add_stepper_motor m s))
          \<and> first_slot (stepper_motors (add_stepper_motor m s) ! i)
               (stepper_motors (add_stepper_motor m s)) = i"
    by (simp add: add_stepper_motor_def nth_append)
qed

text \<open>
  C1.  In a well-formed state with a non-zero period the catch-up block returns.  Let
  \<open>ticks_to_skip = (TC + last_duration) / period\<close> and let \<open>n\<close> be the minimum of
  \<open>ticks_to_skip\<close> and, over the active motors, of
  \<open>(fx_ticks_per_step - fx_counter) >> 32\<close>.  Then every active motor's \<open>fx_counter\<close>
  has been advanced by exactly \<open>n << 32\<close> and no other motor has changed; an active
  motor whose counter was at most its \<open>fx_ticks_per_step\<close> is still at most its
  \<open>fx_ticks_per_step\<close>; with \<open>n = 0\<close> no motor has changed.  \<open>MR0\<close> is
  \<open>(ticks_to_skip + 1) * period\<close>, which lies beyond the reading of \<open>TC\<close> when the
  32-bit sum does not wrap, and the loop that follows leaves the motors alone and ends
  with \<open>MR0\<close> not below the reading of \<open>TC\<close> at which it stops.
\<close>

theorem overrun_catch_up_skips:
  assumes inv: "ticker_inv s" and per: "period s \<noteq> 0"
  shows "case overrun_catch_up start_tc tc end_tc s of
           Inl e \<Rightarrow> False
         | Inr s' \<Rightarrow>
             (let ticks_to_skip = (tc + last_duration s) div period s;
                  n = Min (insert ticks_to_skip (skip_room s ` set (active_slots s)))
              in (\<forall>p. motor_store s' p =
                       (if p \<in> set (active_ptrs s)
                        then (motor_store s p)\<lparr>fx_counter :=
                               fx_counter (motor_store s p) + push_bit 32 (ucast n)\<rparr>
                        else motor_store s p))
                 \<and> (\<forall>p \<in> set (active_ptrs s).
                       fx_counter (motor_store s p) \<le> fx_ticks_per_step (motor_store s p) \<longrightarrow>
                       fx_counter (motor_store s' p) \<le> fx_ticks_per_step (motor_store s' p))
                 \<and> (n = 0 \<longrightarrow> motor_store s' = motor_store s)
                 \<and> MR0 s' = (ticks_to_skip + 1) * period s
                 \<and> (unat tc + unat (last_duration s) + unat (period s) < 2 ^ 32 \<longrightarrow> tc < MR0 s')
                 \<and> (\<forall>tcs s''. mr0_past_tc tcs s' = Inr s'' \<longrightarrow>
                       motor_store s'' = motor_store s'
                       \<and> (\<exists>k < length tcs. \<not> tcs ! k > MR0 s'')))"
proof -
  let ?tts = "(tc + last_duration s) div period s"
  let ?n = "Min (insert ?tts (skip_room s ` set (active_slots s)))"
  let ?store = "\<lambda>p. if p \<in> set (active_ptrs s) then advanced ?n (motor_store s p)
                     else motor_store s p"
  let ?s2 = "write_MR0 ((?tts + 1) * period s) (s\<lparr>motor_store := ?store\<rparr>)"
  let ?s' = "if 0 <s end_tc - start_tc then ?s2\<lparr>last_duration := end_tc - start_tc\<rparr> else ?s2"
  have res: "overrun_catch_up start_tc tc end_tc s = Inr ?s'"
    using catch_up_result [OF inv per, of start_tc tc end_tc] by (simp add: Let_def)
  have store: "motor_store ?s' = ?store"
    by simp
  have mr0: "MR0 ?s' = (?tts + 1) * period s"
    by simp
  have c1: "\<forall>p. motor_store ?s' p =
              (if p \<in> set (active_ptrs s)
               then (motor_store s p)\<lparr>fx_counter :=
                      fx_counter (motor_store s p) + push_bit 32 (ucast ?n)\<rparr>
               else motor_store s p)"
    unfolding store by (simp add: advanced_def)
  have c2: "\<forall>p \<in> set (active_ptrs s).
              fx_counter (motor_store s p) \<le> fx_ticks_per_step (motor_store s p) \<longrightarrow>
              fx_counter (motor_store ?s' p) \<le> fx_ticks_per_step (motor_store ?s' p)"
  proof (intro ballI impI)
    fix p assume p: "p \<in> set (active_ptrs s)"
      and le: "fx_counter (motor_store s p) \<le> fx_ticks_per_step (motor_store s p)"
    from p obtain i where i: "i \<in> set (active_slots s)" "p = stepper_motors s ! i"
      by (auto simp: active_ptrs_def)
    have "?n \<le> skip_room s i"
      using i(1) by (intro Min_le) auto
    then have "?n \<le> ucast (drop_bit 32 (fx_ticks_per_step (motor_store s p)
                                           - fx_counter (motor_store s p)))"
      by (simp add: skip_room_def i(2))
    from no_overshoot [OF le this]
    show "fx_counter (motor_store ?s' p) \<le> fx_ticks_per_step (motor_store ?s' p)"
      unfolding store using p by (simp add: advanced_def)
  qed
  have c3: "?n = 0 \<longrightarrow> motor_store ?s' = motor_store s"
    unfolding store by (auto simp: advanced_def fun_eq_iff)
  have c5: "unat tc + unat (last_duration s) + unat (period s) < 2 ^ 32 \<longrightarrow> tc < MR0 ?s'"
    unfolding mr0 using counter_past_tc [OF per] by blast
  have c6: "\<forall>tcs s''. mr0_past_tc tcs ?s' = Inr s'' \<longrightarrow>
              motor_store s'' = motor_store ?s' \<and> (\<exists>k < length tcs. \<not> tcs ! k > MR0 s'')"
    using mr0_past_tc_exit by blast
  show ?thesis
    unfolding res sum.case Let_def
    using c1 c2 c3 mr0 c5 c6 by (intro conjI)
qed

theorem overrun_catch_up_skips_witness:
  "case overrun_catch_up 520 560 575 catch_up_state of
     Inl e \<Rightarrow> False
   | Inr s' \<Rightarrow> fx_counter (motor_store s' 7) = 3 * 2 ^ 32 + 7
              \<and> fx_counter (motor_store s' 8) = 10 * 2 ^ 32
              \<and> fx_counter (motor_store s' 8) \<le> fx_ticks_per_step (motor_store s' 8)
              \<and> motor_store s' 9 = idle_motor
              \<and> MR0 s' = 750 \<and> last_duration s' = 55"
proof -
  have inv: "ticker_inv catch_up_state"
    by (simp add: ticker_inv_def active_slots_def slot_active_def catch_up_state_def
          boot_ticker_def slots_12)
  have per: "period catch_up_state \<noteq> 0"
    by (simp add: catch_up_state_def boot_ticker_def)
  have 8: "8 \<in> set (active_ptrs catch_up_state)"
    by (simp add: active_ptrs_def active_slots_def slot_active_def catch_up_state_def
          boot_ticker_def slots_12)
  have le: "fx_counter (motor_store catch_up_state 8) \<le> fx_ticks_per_step (motor_store catch_up_state 8)"
    by (simp add: catch_up_state_def idle_motor_def)
  have ev: "case overrun_catch_up 520 560 575 catch_up_state of
     Inl e \<Rightarrow> False
   | Inr s' \<Rightarrow> fx_counter (motor_store s' 7) = 3 * 2 ^ 32 + 7
              \<and> fx_counter (motor_store s' 8) = 10 * 2 ^ 32
              \<and> motor_store s' 9 = idle_motor
              \<and> MR0 s' = 750 \<and> last_duration s' = 55"
    by (simp add: overrun_catch_up_def catch_up_state_def boot_ticker_def slots_12 Let_def
          advance_counter_def write_MR0_def record_hw_def idle_motor_def word_sless_alt)
  note T = overrun_catch_up_skips
         [where s = catch_up_state and start_tc = 520 and tc = 560 and end_tc = 575, OF inv per]
  from T obtain s' where s': "overrun_catch_up 520 560 575 catch_up_state = Inr s'"
    by (cases "overrun_catch_up 520 560 575 catch_up_state") auto
  from T have "\<forall>p \<in> set (active_ptrs catch_up_state).
                 fx_counter (motor_store catch_up_state p)
                   \<le> fx_ticks_per_step (motor_store catch_up_state p) \<longrightarrow>
                 fx_counter (motor_store s' p) \<le> fx_ticks_per_step (motor_store s' p)"
    unfolding s' sum.case Let_def by (elim conjE)
  with 8 le have safe: "fx_counter (motor_store s' 8) \<le> fx_ticks_per_step (motor_store s' 8)"
    by blast
  from ev safe show ?thesis
    unfolding s' sum.case by simp
qed

subsection \<open>The interrupt handler\<close>

lemma pins_append [simp]: "pins (xs @ ys) = pins xs @ pins ys"
  by (induction xs rule: pins.induct) auto

lemma ticked_append [simp]: "ticked (xs @ ys) = ticked xs @ ticked ys"
  by (induction xs rule: ticked.induct) auto

lemma unstepped_append [simp]: "unstepped (xs @ ys) = unstepped xs @ unstepped ys"
  by (induction xs rule: unstepped.induct) auto

lemma unstepped_map [simp]: "unstepped (map Unstep ps) = ps" "pins (map Unstep ps) = []"
  "ticked (map Unstep ps) = []"
  by (induction ps) auto

lemma pulses_unsteps:
  "pulses_separated high (map Unstep ps @ es) = pulses_separated (high - set ps) es"
proof (induction ps arbitrary: high)
  case Nil
  show ?case by simp
next
  case (Cons p ps)
  have "high - {p} - set ps = high - set (p # ps)" by auto
  with Cons show ?case by simp
qed

lemma pulses_fresh:
  "unstepped es = [] \<Longrightarrow>
     pulses_separated high es \<longleftrightarrow> distinct (pins es) \<and> set (pins es) \<inter> high = {}"
  by (induction high es rule: pulses_separated.induct) auto

lemma motor_tick_frame [simp]:
  "stepper_motors (motor_tick p s) = stepper_motors s"
  "active_motor_bm (motor_tick p s) = active_motor_bm s"
  "period (motor_tick p s) = period s"
  "MCR (motor_tick p s) = MCR s"
  "IR (motor_tick p s) = IR s"
  by (simp_all add: motor_tick_def Let_def)

lemma motor_tick_trace:
  "trace (motor_tick p s) =
     trace s @ Tick p # (if fx_ticks_per_step (motor_store s p)
                              \<le> fx_counter (motor_store s p) + push_bit 32 1
                         then [StepPin p] else [])"
  by (simp add: motor_tick_def Let_def)

lemma for_slots_Cons:
  "for_slots f (i # is) s =
     (if slot_active s i then
        (if i < length (stepper_motors s)
         then for_slots f is (f (stepper_motors s ! i) s)
         else Inl OutOfBounds)
      else for_slots f is s)"
  by (simp add: slot_active_def)

lemma motor_unstep_frame [simp]:
  "stepper_motors (motor_unstep p s) = stepper_motors s"
  "active_motor_bm (motor_unstep p s) = active_motor_bm s"
  "period (motor_unstep p s) = period s"
  "MCR (motor_unstep p s) = MCR s"
  "IR (motor_unstep p s) = IR s"
  "trace (motor_unstep p s) = trace s @ [Unstep p]"
  by (simp_all add: motor_unstep_def)

lemma slot_active_frame [simp]:
  "slot_active (motor_tick p s) = slot_active s"
  "slot_active (motor_unstep p s) = slot_active s"
  "slot_active (write_IR v s) = slot_active s"
  "slot_active (write_MCR v s) = slot_active s"
  "slot_active (s\<lparr>isr_context := b\<rparr>) = slot_active s"
  by (simp_all add: slot_active_def fun_eq_iff)

lemma for_slots_unstep:
  assumes "\<forall>i \<in> set is. slot_active s i \<longrightarrow> i < length (stepper_motors s)"
  shows "\<exists>s'. for_slots motor_unstep is s = Inr s'
           \<and> trace s' = trace s @ map Unstep (map (\<lambda>i. stepper_motors s ! i) (filter (slot_active s) is))
           \<and> stepper_motors s' = stepper_motors s \<and> active_motor_bm s' = active_motor_bm s
           \<and> MCR s' = MCR s \<and> IR s' = IR s \<and> period s' = period s"
  using assms
proof (induction "is" arbitrary: s)
  case Nil
  show ?case by simp
next
  case (Cons i "is")
  show ?case
  proof (cases "slot_active s i")
    case False
    with Cons.IH [of s] Cons.prems show ?thesis
      by (simp add: for_slots_Cons del: for_slots.simps)
  next
    case True
    let ?s1 = "motor_unstep (stepper_motors s ! i) s"
    have "\<forall>i \<in> set is. slot_active ?s1 i \<longrightarrow> i < length (stepper_motors ?s1)"
      using Cons.prems by simp
    from Cons.IH [OF this] True Cons.prems show ?thesis
      by (auto simp add: for_slots_Cons simp del: for_slots.simps)
  qed
qed

lemma for_slots_tick:
  assumes "\<forall>i \<in> set is. slot_active s i \<longrightarrow> i < length (stepper_motors s)"
    and "distinct is"
  shows "\<exists>s' evs keep. for_slots motor_tick is s = Inr s'
           \<and> trace s' = trace s @ evs
           \<and> ticked evs = map (\<lambda>i. stepper_motors s ! i) (filter (slot_active s) is)
           \<and> unstepped evs = []
           \<and> pins evs = map (\<lambda>i. stepper_motors s ! i) (filter keep (filter (slot_active s) is))
           \<and> stepper_motors s' = stepper_motors s \<and> active_motor_bm s' = active_motor_bm s
           \<and> MCR s' = MCR s \<and> IR s' = IR s \<and> period s' = period s"
  using assms
proof (induction "is" arbitrary: s)
  case Nil
  show ?case by simp
next
  case (Cons i "is")
  show ?case
  proof (cases "slot_active s i")
    case False
    with Cons.IH [of s] Cons.prems show ?thesis
      by (simp add: for_slots_Cons del: for_slots.simps)
  next
    case True
    let ?p = "stepper_motors s ! i"
    let ?s1 = "motor_tick ?p s"
    let ?b = "fx_ticks_per_step (motor_store s ?p) \<le> fx_counter (motor_store s ?p) + push_bit 32 1"
    have "\<forall>i \<in> set is. slot_active ?s1 i \<longrightarrow> i < length (stepper_motors ?s1)"
      using Cons.prems by simp
    moreover have "distinct is" using Cons.prems by simp
    ultimately obtain s' evs keep where
      r: "for_slots motor_tick is ?s1 = Inr s'" "trace s' = trace ?s1 @ evs"
         "ticked evs = map (\<lambda>i. stepper_motors s ! i) (filter (slot_active s) is)"
         "unstepped evs = []"
         "pins evs = map (\<lambda>i. stepper_motors s ! i) (filter keep (filter (slot_active s) is))"
         "stepper_motors s' = stepper_motors s" "active_motor_bm s' = active_motor_bm s"
         "MCR s' = MCR s" "IR s' = IR s" "period s' = period s"
      using Cons.IH [of ?s1] by auto
    let ?evs = "Tick ?p # (if ?b then [StepPin ?p] else []) @ evs"
    let ?keep = "\<lambda>j. if j = i then ?b else keep j"
    have run: "for_slots motor_tick (i # is) s = Inr s'"
      using True Cons.prems r(1) by (simp add: for_slots_Cons del: for_slots.simps)
    have tr: "trace s' = trace s @ ?evs"
      using r(2) by (simp add: motor_tick_trace)
    have notin: "i \<notin> set is" using Cons.prems by simp
    then have fk: "filter ?keep (filter (slot_active s) is) = filter keep (filter (slot_active s) is)"
      by (intro filter_cong) auto
    have pn: "pins ?evs = map (\<lambda>i. stepper_motors s ! i) (filter ?keep (filter (slot_active s) (i # is)))"
      using True r(5) fk by simp
    have tk: "ticked ?evs = map (\<lambda>i. stepper_motors s ! i) (filter (slot_active s) (i # is))"
      using True r(3) by simp
    have un: "unstepped ?evs = []"
      using r(4) by simp
    from run tr tk un pn r(6-10) show ?thesis
      by blast
  qed
qed

lemma quiet_simps [simp]:
  "quiet []"
  "quiet (WriteIR v # es) = quiet es"
  "quiet (WriteMCR v # es) = quiet es"
  "quiet (WriteTCR v # es) = quiet es"
  "quiet (WriteMR0 v # es) = quiet es"
  "quiet (SignalMoveFinished p # es) = quiet es"
  "quiet (xs @ ys) = (quiet xs \<and> quiet ys)"
  by (auto simp: quiet_def)

lemma extends_refl [simp]: "extends_quietly s s"
  by (simp add: extends_quietly_def)

lemma extends_trans:
  "extends_quietly s t \<Longrightarrow> extends_quietly t u \<Longrightarrow> extends_quietly s u"
  by (auto simp: extends_quietly_def)

lemma extends_same_trace: "trace t = trace s \<Longrightarrow> extends_quietly s t"
  by (simp add: extends_quietly_def)

lemma extends_write [simp]:
  "extends_quietly s (write_MR0 v s)" "extends_quietly s (write_MCR v s)"
  "extends_quietly s (write_IR v s)" "extends_quietly s (write_TCR v s)"
  by (simp_all add: extends_quietly_def)

declare signal_loop.simps [simp del]

lemma signal_loop_quiet:
  assumes cb: "\<forall>p t. trace (callback p t) = trace t"
  shows "signal_loop callback fuel motor bitmask s = Inr s' \<Longrightarrow> extends_quietly s s'"
proof (induction fuel arbitrary: motor bitmask s)
  case 0
  then show ?case by (subst (asm) signal_loop.simps) (simp split: if_splits)
next
  case (Suc n)
  let ?p = "stepper_motors s ! motor"
  let ?s1 = "callback ?p (record_hw (SignalMoveFinished ?p) s)"
  have s1: "extends_quietly s ?s1"
    using cb by (simp add: extends_quietly_def)
  from Suc.prems show ?case
    by (subst (asm) signal_loop.simps)
       (auto simp: Let_def split: if_splits dest!: Suc.IH intro: extends_trans [OF s1])
qed

lemma for_slots_advance_trace:
  "for_slots (advance_counter n) is s = Inr s' \<Longrightarrow> trace s' = trace s"
proof (induction "is" arbitrary: s)
  case Nil
  then show ?case by simp
next
  case (Cons i "is")
  then show ?case
    by (auto simp add: for_slots_Cons simp del: for_slots.simps split: if_splits)
qed

lemma overrun_catch_up_quiet:
  "overrun_catch_up a b c s = Inr s' \<Longrightarrow> extends_quietly s s'"
  by (auto simp: overrun_catch_up_def Let_def extends_quietly_def
        split: if_splits sum.splits dest!: for_slots_advance_trace)

lemma mr0_past_tc_quiet:
  "mr0_past_tc tcs s = Inr s' \<Longrightarrow> extends_quietly s s'"
proof (induction tcs arbitrary: s)
  case Nil
  then show ?case by simp
next
  case (Cons tc tcs)
  show ?case
  proof (cases "tc > MR0 s")
    case False
    with Cons.prems show ?thesis by simp
  next
    case True
    with Cons.prems have "mr0_past_tc tcs (write_MR0 (MR0 s + period s) s) = Inr s'" by simp
    from Cons.IH [OF this] show ?thesis
      by (rule extends_trans [rotated]) simp
  qed
qed

lemma moves_finished_part_quiet:
  assumes cb: "\<forall>p t. trace (callback p t) = trace t"
    and res: "moves_finished_part callback fuel r s = Inr s'"
  shows "extends_quietly s s'"
proof -
  from res obtain s1 s2 where
    s1: "signal_moves_finished callback fuel (write_MR0 (NOT 0) s) = Inr s1"
    and s2: "(if tc_guard r > period s1
              then overrun_catch_up (tc_start r) (tc_skip r) (tc_end r) s1
              else Inr (write_MR0 (period s1) s1)) = Inr s2"
    and s3: "mr0_past_tc (tc_loop r) s2 = Inr s'"
    by (auto simp: moves_finished_part_def split: sum.splits)
  from s1 obtain t where t: "signal_loop callback fuel 0 1 ((write_MR0 (NOT 0) s)\<lparr>isr_context := True\<rparr>) = Inr t"
      and s1t: "s1 = t\<lparr>moves_finished := False, isr_context := False\<rparr>"
    by (auto simp: signal_moves_finished_def split: sum.splits)
  have a: "extends_quietly s ((write_MR0 (NOT 0) s)\<lparr>isr_context := True\<rparr>)"
    by (simp add: extends_quietly_def)
  have b: "extends_quietly ((write_MR0 (NOT 0) s)\<lparr>isr_context := True\<rparr>) t"
    using signal_loop_quiet [OF cb t] .
  have c: "extends_quietly t s1"
    by (simp add: s1t extends_quietly_def)
  have d: "extends_quietly s1 s2"
    using s2 by (auto split: if_splits dest: overrun_catch_up_quiet)
  have e: "extends_quietly s2 s'"
    using mr0_past_tc_quiet [OF s3] .
  from a b c d e show ?thesis
    by (blast intro: extends_trans)
qed

lemma pulses_after_unsteps:
  assumes "unstepped es = []" and "distinct (pins es)" and "set (pins es) \<subseteq> set ps"
    and "quiet w1" and "quiet w2"
  shows "pulses_separated high (w1 @ map Unstep ps @ w2 @ es)"
proof -
  have skip: "pulses_separated h (w @ xs) = pulses_separated h xs" if "quiet w" for h w xs
    using that by (induction h w rule: pulses_separated.induct) (auto simp: quiet_def)
  have "pulses_separated high (w1 @ map Unstep ps @ w2 @ es)
          = pulses_separated (high - set ps) es"
    by (simp add: skip [OF assms(4)] pulses_unsteps skip [OF assms(5)])
  also have "\<dots>" using assms(1-3) by (auto simp: pulses_fresh)
  finally show ?thesis .
qed

lemma keep_mr0_flag:
  fixes x :: u32
  assumes "x AND push_bit 0 1 \<noteq> 0"
  shows "(x AND NOT (push_bit 1 1)) AND push_bit 0 1 \<noteq> 0"
proof -
  from assms have "bit x 0" by (simp add: bit_iff_and_push_bit_not_eq_0)
  then have "bit (x AND NOT (push_bit 1 1)) 0" by (simp add: bit_simps)
  then show ?thesis by (rule bit_iff_and_push_bit_not_eq_0 [THEN iffD1])
qed

lemma mr1_match_result:
  assumes mr1: "IR s AND push_bit 1 1 \<noteq> 0" and inv: "ticker_inv s"
  shows "\<exists>s1. mr1_match s = Inr s1
           \<and> trace s1 = trace s @ [WriteIR (push_bit 1 1), WriteMCR (MCR s AND NOT MCR_MR1I)]
                          @ map Unstep (active_ptrs s)
           \<and> stepper_motors s1 = stepper_motors s \<and> active_motor_bm s1 = active_motor_bm s
           \<and> IR s1 = IR s AND NOT (push_bit 1 1)"
proof -
  let ?s0 = "(write_MCR (MCR s AND NOT MCR_MR1I) (write_IR (push_bit 1 1) s))\<lparr>isr_context := True\<rparr>"
  have "\<forall>i \<in> set [0..<12]. slot_active ?s0 i \<longrightarrow> i < length (stepper_motors ?s0)"
    using inv_in_range [OF inv] by simp
  from for_slots_unstep [OF this] obtain t where
    t: "for_slots motor_unstep [0..<12] ?s0 = Inr t"
       "trace t = trace ?s0 @ map Unstep (map (\<lambda>i. stepper_motors ?s0 ! i) (filter (slot_active ?s0) [0..<12]))"
       "stepper_motors t = stepper_motors ?s0" "active_motor_bm t = active_motor_bm ?s0"
       "IR t = IR ?s0"
    by blast
  have "mr1_match s = Inr (t\<lparr>isr_context := False\<rparr>)"
    using mr1 t(1) by (simp add: mr1_match_def reset_tick_def Let_def)
  moreover have "trace (t\<lparr>isr_context := False\<rparr>) =
                   trace s @ [WriteIR (push_bit 1 1), WriteMCR (MCR s AND NOT MCR_MR1I)]
                     @ map Unstep (active_ptrs s)"
    using t(2) by (simp add: active_ptrs_def active_slots_def)
  ultimately show ?thesis
    using t(3-5) by simp
qed

text \<open>
  C2, as the code has it.  In an invocation of the handler with both match flags pending,
  in a well-formed state, the MR1 path runs first and returns: the MR1 flag is cleared,
  MR1's interrupt enable is cleared, and every active motor is unstepped.  Only then is
  the MR0 flag cleared and \<open>tick()\<close> called on every active motor, each once.  So every
  step pin asserted in this invocation was unstepped earlier in the same invocation, and
  no pin is asserted twice: whatever pins were high at entry, the events of the invocation
  keep an unstep between two assertions of the same pin.  The callback of
  \<open>signal_move_finished\<close> is assumed to leave the trace alone.
\<close>

theorem mr1_path_runs_first:
  assumes mr1: "IR s AND push_bit 1 1 \<noteq> 0" and mr0: "IR s AND push_bit 0 1 \<noteq> 0"
    and inv: "ticker_inv s"
    and cb: "\<forall>p t. trace (callback p t) = trace t"
  shows "\<exists>s2 ticks.
           (case mr1_match s of
              Inl e \<Rightarrow> False
            | Inr s1 \<Rightarrow> for_slots motor_tick [0..<12] (write_IR (push_bit 0 1) s1) = Inr s2)
         \<and> trace s2 = trace s @ [WriteIR (push_bit 1 1), WriteMCR (MCR s AND NOT MCR_MR1I)]
                         @ map Unstep (active_ptrs s) @ [WriteIR (push_bit 0 1)] @ ticks
         \<and> ticked ticks = active_ptrs s \<and> unstepped ticks = []
         \<and> distinct (pins ticks) \<and> set (pins ticks) \<subseteq> set (active_ptrs s)
         \<and> (\<forall>s'. TIMER0_IRQHandler callback fuel r s = Inr s' \<longrightarrow>
               (\<exists>rest. trace s' = trace s2 @ rest \<and> quiet rest)
               \<and> (\<forall>high. pulses_separated high (drop (length (trace s)) (trace s'))))"
proof -
  from mr1_match_result [OF mr1 inv] obtain s1 where
    s1: "mr1_match s = Inr s1"
        "trace s1 = trace s @ [WriteIR (push_bit 1 1), WriteMCR (MCR s AND NOT MCR_MR1I)]
                          @ map Unstep (active_ptrs s)"
        "stepper_motors s1 = stepper_motors s" "active_motor_bm s1 = active_motor_bm s"
        "IR s1 = IR s AND NOT (push_bit 1 1)"
    by blast
  have flag: "IR s1 AND push_bit 0 1 \<noteq> 0"
    unfolding s1(5) using mr0 by (rule keep_mr0_flag)
  let ?s1' = "write_IR (push_bit 0 1) s1"
  have act1: "slot_active s1 = slot_active s"
    by (simp add: slot_active_def fun_eq_iff s1(4))
  have act: "slot_active ?s1' = slot_active s"
    by (simp add: act1)
  have "\<forall>i \<in> set [0..<12]. slot_active ?s1' i \<longrightarrow> i < length (stepper_motors ?s1')"
    using inv_in_range [OF inv] by (simp add: act1 s1(3))
  from for_slots_tick [OF this] obtain s2 ticks keep where
    s2: "for_slots motor_tick [0..<12] ?s1' = Inr s2" "trace s2 = trace ?s1' @ ticks"
        "ticked ticks = map (\<lambda>i. stepper_motors ?s1' ! i) (filter (slot_active ?s1') [0..<12])"
        "unstepped ticks = []"
        "pins ticks = map (\<lambda>i. stepper_motors ?s1' ! i) (filter keep (filter (slot_active ?s1') [0..<12]))"
    by auto
  have tk: "ticked ticks = active_ptrs s"
    using s2(3) by (simp add: act1 s1(3) active_ptrs_def active_slots_def)
  have pn: "pins ticks = map (\<lambda>i. stepper_motors s ! i) (filter keep (active_slots s))"
    using s2(5) by (simp add: act1 s1(3) active_slots_def)
  have dist: "distinct (pins ticks)"
    unfolding pn using inv_distinct [OF inv]
    by (simp add: active_ptrs_def distinct_map_filter)
  have sub: "set (pins ticks) \<subseteq> set (active_ptrs s)"
    unfolding pn by (auto simp: active_ptrs_def)
  have tr2: "trace s2 = trace s @ [WriteIR (push_bit 1 1), WriteMCR (MCR s AND NOT MCR_MR1I)]
                         @ map Unstep (active_ptrs s) @ [WriteIR (push_bit 0 1)] @ ticks"
    using s2(2) s1(2) by simp
  have rest: "(\<exists>rest. trace s' = trace s2 @ rest \<and> quiet rest)
               \<and> (\<forall>high. pulses_separated high (drop (length (trace s)) (trace s')))"
    if h: "TIMER0_IRQHandler callback fuel r s = Inr s'" for s'
  proof -
    from h have m: "mr0_match callback fuel r s1 = Inr s'"
      by (simp add: TIMER0_IRQHandler_def s1(1))
    have ext: "extends_quietly s2 s'"
    proof (cases "reset_step_pins s2")
      case False
      with m flag s2(1) show ?thesis by (auto simp: mr0_match_def)
    next
      case True
      let ?s3 = "(write_MCR (MCR s2 OR MCR_MR1I) s2)\<lparr>reset_step_pins := False\<rparr>"
      have e3: "extends_quietly s2 ?s3" by (simp add: extends_quietly_def)
      show ?thesis
      proof (cases "moves_finished ?s3")
        case False
        with m flag s2(1) True have "s' = ?s3" by (simp add: mr0_match_def Let_def)
        with e3 show ?thesis by simp
      next
        case mf: True
        with m flag s2(1) True have "moves_finished_part callback fuel r ?s3 = Inr s'"
          by (simp add: mr0_match_def Let_def)
        from moves_finished_part_quiet [OF cb this] e3 show ?thesis
          by (blast intro: extends_trans)
      qed
    qed
    then obtain rest where rest: "trace s' = trace s2 @ rest" "quiet rest"
      by (auto simp: extends_quietly_def)
    have new: "drop (length (trace s)) (trace s') =
                 [WriteIR (push_bit 1 1), WriteMCR (MCR s AND NOT MCR_MR1I)]
                   @ map Unstep (active_ptrs s) @ [WriteIR (push_bit 0 1)] @ (ticks @ rest)"
      by (simp add: rest(1) tr2)
    have q: "unstepped (ticks @ rest) = []" "distinct (pins (ticks @ rest))"
        "set (pins (ticks @ rest)) \<subseteq> set (active_ptrs s)"
      using rest(2) s2(4) dist sub by (simp_all add: quiet_def)
    have "pulses_separated high (drop (length (trace s)) (trace s'))" for high
      unfolding new by (rule pulses_after_unsteps [OF q]) simp_all
    with rest show ?thesis by blast
  qed
  show ?thesis
    using s1(1) s2(1) tr2 tk s2(4) dist sub rest
    by (intro exI [of _ s2] exI [of _ ticks]) (simp)
qed

lemmas handler_eval =
  TIMER0_IRQHandler_def mr1_match_def mr0_match_def reset_tick_def motor_tick_def
  motor_unstep_def write_IR_def write_MCR_def write_MR0_def record_hw_def Let_def slots_12
  boot_ticker_def idle_motor_def MCR_MR0I_def MCR_MR0R_def MCR_MR1I_def TCR_ENABLE_def

theorem mr1_path_runs_first_witness:
  "case TIMER0_IRQHandler (\<lambda>p t. t) 0 no_reads both_pending_state of
     Inl e \<Rightarrow> False
   | Inr s' \<Rightarrow>
       trace s' = [WriteIR 2, WriteMCR 3, Unstep 7, Unstep 8, WriteIR 1,
                   Tick 7, StepPin 7, Tick 8, WriteMCR 11]
       \<and> pulses_separated {7} (trace s')"
proof -
  have mr1: "IR both_pending_state AND push_bit 1 1 \<noteq> 0"
    and mr0: "IR both_pending_state AND push_bit 0 1 \<noteq> 0"
    by (simp_all add: both_pending_state_def)
  have inv: "ticker_inv both_pending_state"
    by (simp add: ticker_inv_def active_slots_def slot_active_def both_pending_state_def
          boot_ticker_def slots_12)
  have cb: "\<forall>p t. trace ((\<lambda>p t. t) p t) = trace t"
    by simp
  have start: "trace both_pending_state = []"
    by (simp add: both_pending_state_def boot_ticker_def)
  have ev: "case TIMER0_IRQHandler (\<lambda>p t. t) 0 no_reads both_pending_state of
     Inl e \<Rightarrow> False
   | Inr s' \<Rightarrow>
       trace s' = [WriteIR 2, WriteMCR 3, Unstep 7, Unstep 8, WriteIR 1,
                   Tick 7, StepPin 7, Tick 8, WriteMCR 11]"
    by (simp add: both_pending_state_def handler_eval)
  then obtain s' where s': "TIMER0_IRQHandler (\<lambda>p t. t) 0 no_reads both_pending_state = Inr s'"
    by (cases "TIMER0_IRQHandler (\<lambda>p t. t) 0 no_reads both_pending_state") auto
  from mr1_path_runs_first [OF mr1 mr0 inv cb, of 0 no_reads] s'
  have "pulses_separated {7} (drop (length (trace both_pending_state)) (trace s'))"
    by blast
  with ev show ?thesis
    unfolding s' sum.case start by simp
qed

text \<open>
  C2, as the specification words it, fails: the handler alone puts no unstep between the
  pulses of two invocations in which only the MR0 flag is pending.
\<close>

theorem pulses_without_unstep_counterexample:
  "case run_handler (\<lambda>p t. t) 0 [(1, no_reads), (1, no_reads)] late_reset_state of
     Inl e \<Rightarrow> False
   | Inr s' \<Rightarrow>
       trace s' = [WriteIR 1, Tick 7, StepPin 7, WriteMCR 11,
                   WriteIR 1, Tick 7, StepPin 7, WriteMCR 11]
       \<and> \<not> pulses_separated {} (trace s')"
  by (simp add: late_reset_state_def handler_eval)

end
